theory Spec2Isabelle
  imports Complex_Main "HOL-Library.Sublist" "HOL-Library.Product_Lexorder" "HOL-Library.Multiset"
    "HOL-Library.Log_Nat"
begin

section \<open>Python string primitives used by the program\<close>

text \<open>
  Python strings are modelled as \<open>string\<close> (a list of 8-bit characters, read as the code
  points U+0000 to U+00FF). The operations below are the ones \<open>utils.py\<close> and
  \<open>mp3ify.py\<close> call: the substring test \<open>in\<close>, \<open>str.split\<close>, \<open>str.strip\<close>,
  \<open>str.replace\<close> with a one-character pattern and an empty replacement, \<open>str.join\<close> and
  \<open>str.lower\<close>.
\<close>

text \<open>\<open>s.find(sep)\<close>: the index of the leftmost occurrence of \<open>sep\<close> in \<open>s\<close>, if any.\<close>

fun find_sub :: "string \<Rightarrow> string \<Rightarrow> nat option" where
  "find_sub sep [] = (if sep = [] then Some 0 else None)"
| "find_sub sep (c # cs) =
     (if prefix sep (c # cs) then Some 0 else map_option Suc (find_sub sep cs))"

text \<open>\<open>sep in s\<close>.\<close>

definition str_in :: "string \<Rightarrow> string \<Rightarrow> bool" where
  "str_in sep s = (find_sub sep s \<noteq> None)"

lemma find_sub_Some:
  "find_sub sep s = Some i \<Longrightarrow> i + length sep \<le> length s \<and> take (length sep) (drop i s) = sep"
proof (induction s arbitrary: i)
  case Nil
  then show ?case by (simp split: if_splits)
next
  case (Cons c cs)
  show ?case
  proof (cases "prefix sep (c # cs)")
    case True
    with Cons.prems have "i = 0" by simp
    from True have "length sep \<le> length (c # cs)" by (rule prefix_length_le)
    moreover from True have "take (length sep) (c # cs) = sep"
      by (metis append_eq_conv_conj prefixE)
    ultimately show ?thesis using \<open>i = 0\<close> by simp
  next
    case False
    with Cons.prems obtain i' where "find_sub sep cs = Some i'" "i = Suc i'" by auto
    with Cons.IH show ?thesis by simp
  qed
qed

text \<open>
  \<open>s.split(sep, maxsplit)\<close>: the pieces of \<open>s\<close> between the leftmost non-overlapping
  occurrences of \<open>sep\<close>, at most \<open>maxsplit\<close> cuts; a negative \<open>maxsplit\<close> (Python's default
  \<open>-1\<close>) means no limit. Python raises \<open>ValueError\<close> for an empty separator; every
  separator of this program is a non-empty literal, and the model returns \<open>[s]\<close> there.
\<close>

function py_split :: "string \<Rightarrow> int \<Rightarrow> string \<Rightarrow> string list" where
  "py_split sep maxsplit s =
     (if sep = [] \<or> maxsplit = 0 then [s]
      else case find_sub sep s of
             None \<Rightarrow> [s]
           | Some i \<Rightarrow> take i s # py_split sep (maxsplit - 1) (drop (i + length sep) s))"
  by pat_completeness auto
termination
proof (relation "measure (\<lambda>(sep, maxsplit, s). length s)")
  show "wf (measure (\<lambda>(sep, maxsplit, s). length s))" by simp
next
  fix sep :: string and maxsplit :: int and s :: string and i :: nat
  assume "\<not> (sep = [] \<or> maxsplit = 0)" and "find_sub sep s = Some i"
  then have "sep \<noteq> []" and "i + length sep \<le> length s"
    using find_sub_Some by auto
  then show "((sep, maxsplit - 1, drop (i + length sep) s), (sep, maxsplit, s))
        \<in> measure (\<lambda>(sep, maxsplit, s). length s)"
    by (cases sep) auto
qed

declare py_split.simps [simp del]

text \<open>
  \<open>str.isspace\<close> on the code points below U+0100: TAB, LF, VT, FF, CR, the separators
  U+001C to U+001F, SPACE, NEL (U+0085) and NBSP (U+00A0).
\<close>

definition is_space :: "char \<Rightarrow> bool" where
  "is_space c = (let n = of_char c :: nat in
     (9 \<le> n \<and> n \<le> 13) \<or> (28 \<le> n \<and> n \<le> 32) \<or> n = 133 \<or> n = 160)"

text \<open>\<open>s.strip()\<close>.\<close>

definition strip :: "string \<Rightarrow> string" where
  "strip s = rev (dropWhile is_space (rev (dropWhile is_space s)))"

text \<open>\<open>s.replace(c, "")\<close> for a one-character \<open>c\<close>.\<close>

definition remove_char :: "char \<Rightarrow> string \<Rightarrow> string" where
  "remove_char c s = filter (\<lambda>x. x \<noteq> c) s"

text \<open>\<open>sep.join(xs)\<close>.\<close>

fun join :: "string \<Rightarrow> string list \<Rightarrow> string" where
  "join sep [] = []"
| "join sep [x] = x"
| "join sep (x # y # ys) = x @ sep @ join sep (y # ys)"

section \<open>Errors\<close>

text \<open>
  The exceptions the modelled code can raise. \<open>NotEnoughValues\<close> and \<open>TooManyValues\<close>
  are the two \<open>ValueError\<close>s of a failed two-target unpacking (the first is what the
  specification calls \<open>MalformedTitle\<close> when it comes from the \<open>" - "\<close> split),
  \<open>UnboundLocalError\<close> is a read of a local variable that was never assigned, and
  \<open>SearchError\<close> is the \<open>RuntimeError\<close> that \<open>search_youtube_single_track\<close> raises when
  the search backend fails.
\<close>

datatype error = NotEnoughValues | TooManyValues | UnboundLocalError | SearchError

text \<open>\<open>x, y = parts\<close>.\<close>

fun unpack2 :: "string list \<Rightarrow> error + (string \<times> string)" where
  "unpack2 [x, y] = Inr (x, y)"
| "unpack2 [] = Inl NotEnoughValues"
| "unpack2 [x] = Inl NotEnoughValues"
| "unpack2 (x # y # z # zs) = Inl TooManyValues"

section \<open>The metadata normalisers of \<open>utils.py\<close>\<close>

definition feat_strings :: "string list" where
  "feat_strings = ['' feat.'', '' ft.'', ''(feat.'', ''(ft.'']"

text \<open>
  The list comprehension shared by both normalisers:
  \<open>[artist.replace(")", "").strip() for artist in
     featured_artists.split(", " if ", " in featured_artists else "& ")]\<close>.
\<close>

definition parse_featured :: "string \<Rightarrow> string list" where
  "parse_featured featured_artists =
     map (\<lambda>artist. strip (remove_char (CHR '')'') artist))
       (py_split (if str_in '', '' featured_artists then '', '' else ''& '') (- 1)
          featured_artists)"

text \<open>
  The marker loop of \<open>process_spotify_song_name\<close>. The state is the local \<open>title\<close>
  (\<open>None\<close> while it is unbound) and the list \<open>artists\<close>. The loop has no \<open>break\<close>.
\<close>

fun spotify_loop ::
  "string list \<Rightarrow> string \<Rightarrow> string option \<times> string list \<Rightarrow> error + (string option \<times> string list)"
where
  "spotify_loop [] song_title st = Inr st"
| "spotify_loop (feat_string # rest) song_title (title, artists) =
     (if str_in feat_string song_title then
        (case unpack2 (py_split feat_string (- 1) song_title) of
           Inl e \<Rightarrow> Inl e
         | Inr (t, featured_artists) \<Rightarrow>
             spotify_loop rest song_title (Some t, artists @ parse_featured featured_artists))
      else spotify_loop rest song_title (title, artists))"

text \<open>
  \<open>for artist in artists: if artist not in song_artists: song_artists.append(artist)\<close>.
  The Python appends to the caller's list in place; the model returns the new list.
\<close>

fun append_new :: "string list \<Rightarrow> string list \<Rightarrow> string list" where
  "append_new song_artists [] = song_artists"
| "append_new song_artists (artist # rest) =
     append_new (if artist \<in> set song_artists then song_artists else song_artists @ [artist]) rest"

definition process_spotify_song_name ::
  "string list \<Rightarrow> string \<Rightarrow> error + (string list \<times> string)"
where
  "process_spotify_song_name song_artists song_title =
     (case spotify_loop feat_strings song_title (None, []) of
        Inl e \<Rightarrow> Inl e
      | Inr (title, artists) \<Rightarrow>
          (case (if artists = [] then Some song_title else title) of
             None \<Rightarrow> Inl UnboundLocalError
           | Some t \<Rightarrow> Inr (append_new song_artists artists, strip t)))"

text \<open>
  The marker loop of \<open>process_yt_title\<close>: each marker is tried on the left side and then on
  the right side. The state is \<open>left_artists\<close>, \<open>right_artists\<close> and \<open>title\<close> (initially
  \<open>None\<close>).
\<close>

fun yt_loop ::
  "string list \<Rightarrow> string \<Rightarrow> string \<Rightarrow> string list \<times> string list \<times> string option \<Rightarrow>
     error + (string list \<times> string list \<times> string option)"
where
  "yt_loop [] left_side right_side st = Inr st"
| "yt_loop (feat_string # rest) left_side right_side (left_artists, right_artists, title) =
     (case (if str_in feat_string left_side then
              (case unpack2 (py_split feat_string (- 1) left_side) of
                 Inl e \<Rightarrow> Inl e
               | Inr (main_artist, featured_artists) \<Rightarrow>
                   Inr (left_artists @ (strip main_artist # parse_featured featured_artists)))
            else Inr left_artists) of
        Inl e \<Rightarrow> Inl e
      | Inr left_artists' \<Rightarrow>
          (case (if str_in feat_string right_side then
                   (case unpack2 (py_split feat_string (- 1) right_side) of
                      Inl e \<Rightarrow> Inl e
                    | Inr (t, featured_artists) \<Rightarrow>
                        Inr (right_artists @ parse_featured featured_artists, Some t))
                 else Inr (right_artists, title)) of
             Inl e \<Rightarrow> Inl e
           | Inr (right_artists', title') \<Rightarrow>
               yt_loop rest left_side right_side (left_artists', right_artists', title')))"

text \<open>\<open>if not title\<close> holds for \<open>None\<close> and for the empty string.\<close>

definition process_yt_title :: "string \<Rightarrow> error + (string list \<times> string)" where
  "process_yt_title yt_title =
     (case unpack2 (py_split '' - '' 1 yt_title) of
        Inl e \<Rightarrow> Inl e
      | Inr (left_side, right_side) \<Rightarrow>
          (case yt_loop feat_strings left_side right_side ([], [], None) of
             Inl e \<Rightarrow> Inl e
           | Inr (left_artists, right_artists, title) \<Rightarrow>
               Inr ((if left_artists = [] then [strip left_side] else left_artists) @ right_artists,
                    (case title of
                       None \<Rightarrow> strip right_side
                     | Some t \<Rightarrow> if t = [] then strip right_side else t))))"

section \<open>The similarity scorer\<close>

text \<open>
  \<open>similarity_ratio\<close> is \<open>difflib.SequenceMatcher(None, s1.lower(), s2.lower()).ratio()\<close>.
  \<open>SequenceMatcher\<close> belongs to the Python standard library; the definitions of this
  section transcribe \<open>Lib/difflib.py\<close> (CPython 3.11) for the way the program calls it:
  \<open>isjunk\<close> is \<open>None\<close>, so the junk set \<open>bjunk\<close> is empty, and \<open>autojunk\<close> has its
  default \<open>True\<close>.
\<close>

text \<open>\<open>str.lower\<close> on the code points below U+0100.\<close>

definition lower_char :: "char \<Rightarrow> char" where
  "lower_char c = (let n = of_char c :: nat in
     if (65 \<le> n \<and> n \<le> 90) \<or> (192 \<le> n \<and> n \<le> 222 \<and> n \<noteq> 215)
     then char_of (n + 32) else c)"

definition lower :: "string \<Rightarrow> string" where
  "lower s = map lower_char s"

text \<open>
  \<open>__chain_b\<close>: with at least 200 elements in \<open>b\<close>, an element with more than
  \<open>len(b) // 100 + 1\<close> occurrences is popular and loses its entry of \<open>b2j\<close>.
\<close>

definition is_popular :: "string \<Rightarrow> char \<Rightarrow> bool" where
  "is_popular b elt =
     (length b \<ge> 200 \<and> length (filter (\<lambda>x. x = elt) b) > length b div 100 + 1)"

text \<open>\<open>b2j.get(elt, nothing)\<close>: the ascending indices of \<open>elt\<close> in \<open>b\<close>.\<close>

definition b2j :: "string \<Rightarrow> char \<Rightarrow> nat list" where
  "b2j b elt =
     (if is_popular b elt then [] else filter (\<lambda>j. b ! j = elt) [0..<length b])"

type_synonym match = "nat \<times> nat \<times> nat"

text \<open>
  The inner loop of \<open>find_longest_match\<close> over the indices \<open>j\<close> of \<open>a[i]\<close> in \<open>b\<close>.
  The dictionaries \<open>j2len\<close> and \<open>newj2len\<close> are only read with \<open>get(j-1, 0)\<close> and only
  hold positive lengths, so they are functions with value \<open>0\<close> at an absent key; the key
  \<open>-1\<close> is never present.
\<close>

fun inner_loop ::
  "(nat \<Rightarrow> nat) \<Rightarrow> nat \<Rightarrow> nat \<Rightarrow> nat \<Rightarrow> nat list \<Rightarrow> (nat \<Rightarrow> nat) \<times> match \<Rightarrow> (nat \<Rightarrow> nat) \<times> match"
where
  "inner_loop j2len blo bhi i [] st = st"
| "inner_loop j2len blo bhi i (j # js) (newj2len, besti, bestj, bestsize) =
     (if j < blo then inner_loop j2len blo bhi i js (newj2len, besti, bestj, bestsize)
      else if j \<ge> bhi then (newj2len, besti, bestj, bestsize)
      else
        (let k = (if j = 0 then 0 else j2len (j - 1)) + 1 in
         inner_loop j2len blo bhi i js
           (newj2len(j := k),
            if k > bestsize then (i + 1 - k, j + 1 - k, k) else (besti, bestj, bestsize))))"

text \<open>The outer loop \<open>for i in range(alo, ahi)\<close>, called with \<open>[alo..<ahi]\<close>.\<close>

fun outer_loop ::
  "string \<Rightarrow> string \<Rightarrow> nat \<Rightarrow> nat \<Rightarrow> nat list \<Rightarrow> (nat \<Rightarrow> nat) \<times> match \<Rightarrow> match"
where
  "outer_loop a b blo bhi [] (j2len, best) = best"
| "outer_loop a b blo bhi (i # rest) (j2len, best) =
     (case inner_loop j2len blo bhi i (b2j b (a ! i)) (\<lambda>_. 0, best) of
        (newj2len, best') \<Rightarrow> outer_loop a b blo bhi rest (newj2len, best'))"

text \<open>
  The two \<open>while\<close> loops that extend the best block by matching elements on each end.
  With an empty \<open>bjunk\<close> the test \<open>not isbjunk(...)\<close> is always true, and the second pair
  of loops of the source (which require \<open>isbjunk(...)\<close>) never runs.
\<close>

function extend_back :: "string \<Rightarrow> string \<Rightarrow> nat \<Rightarrow> nat \<Rightarrow> match \<Rightarrow> match" where
  "extend_back a b alo blo (besti, bestj, bestsize) =
     (if besti > alo \<and> bestj > blo \<and> a ! (besti - 1) = b ! (bestj - 1)
      then extend_back a b alo blo (besti - 1, bestj - 1, bestsize + 1)
      else (besti, bestj, bestsize))"
  by pat_completeness auto
termination
  by (relation "measure (\<lambda>(a, b, alo, blo, besti, bestj, bestsize). besti)") auto

function extend_fwd :: "string \<Rightarrow> string \<Rightarrow> nat \<Rightarrow> nat \<Rightarrow> match \<Rightarrow> match" where
  "extend_fwd a b ahi bhi (besti, bestj, bestsize) =
     (if besti + bestsize < ahi \<and> bestj + bestsize < bhi
         \<and> a ! (besti + bestsize) = b ! (bestj + bestsize)
      then extend_fwd a b ahi bhi (besti, bestj, bestsize + 1)
      else (besti, bestj, bestsize))"
  by pat_completeness auto
termination
  by (relation "measure (\<lambda>(a, b, ahi, bhi, besti, bestj, bestsize). ahi - (besti + bestsize))")
    auto

declare extend_back.simps [simp del] extend_fwd.simps [simp del]

definition find_longest_match :: "string \<Rightarrow> string \<Rightarrow> nat \<Rightarrow> nat \<Rightarrow> nat \<Rightarrow> nat \<Rightarrow> match" where
  "find_longest_match a b alo ahi blo bhi =
     extend_fwd a b ahi bhi
       (extend_back a b alo blo
          (outer_loop a b blo bhi [alo..<ahi] (\<lambda>_. 0, alo, blo, 0)))"

subsection \<open>Bounds of the block that \<open>find_longest_match\<close> returns\<close>

text \<open>
  The loop over the queue of \<open>get_matching_blocks\<close> terminates because the block found
  lies inside the searched window. \<open>best_ok\<close> is the invariant of the triple
  \<open>(besti, bestj, bestsize)\<close>, \<open>table_ok\<close> the invariant of \<open>j2len\<close> before row \<open>i\<close>.
\<close>

definition best_ok :: "nat \<Rightarrow> nat \<Rightarrow> nat \<Rightarrow> nat \<Rightarrow> match \<Rightarrow> bool" where
  "best_ok alo ahi blo bhi m =
     (case m of (i, j, k) \<Rightarrow>
        alo \<le> i \<and> blo \<le> j \<and> (if k = 0 then i = alo \<and> j = blo else i + k \<le> ahi \<and> j + k \<le> bhi))"

definition table_ok :: "nat \<Rightarrow> nat \<Rightarrow> nat \<Rightarrow> (nat \<Rightarrow> nat) \<Rightarrow> bool" where
  "table_ok alo blo i t = (\<forall>j. t j \<le> i - alo \<and> (t j \<noteq> 0 \<longrightarrow> blo \<le> j \<and> t j \<le> j + 1 - blo))"

definition kval :: "(nat \<Rightarrow> nat) \<Rightarrow> nat \<Rightarrow> nat" where
  "kval j2len j = (if j = 0 then 0 else j2len (j - 1)) + 1"

lemma inner_loop_low:
  "j < blo \<Longrightarrow> inner_loop j2len blo bhi i (j # js) (t, best) = inner_loop j2len blo bhi i js (t, best)"
  by (cases best) simp

lemma inner_loop_high:
  "\<not> j < blo \<Longrightarrow> bhi \<le> j \<Longrightarrow> inner_loop j2len blo bhi i (j # js) (t, best) = (t, best)"
  by (cases best) simp

lemma inner_loop_step:
  "\<not> j < blo \<Longrightarrow> \<not> bhi \<le> j \<Longrightarrow>
   inner_loop j2len blo bhi i (j # js) (t, besti, bestj, bestsize) =
   inner_loop j2len blo bhi i js
     (t(j := kval j2len j),
      if kval j2len j > bestsize then (i + 1 - kval j2len j, j + 1 - kval j2len j, kval j2len j)
      else (besti, bestj, bestsize))"
  by (simp add: kval_def Let_def)

lemma inner_loop_ok:
  assumes "table_ok alo blo i j2len" "alo \<le> i" "i < ahi"
  shows "table_ok alo blo (Suc i) newj2len \<Longrightarrow> best_ok alo ahi blo bhi best \<Longrightarrow>
     inner_loop j2len blo bhi i js (newj2len, best) = (t', best') \<Longrightarrow>
     table_ok alo blo (Suc i) t' \<and> best_ok alo ahi blo bhi best'"
proof (induction js arbitrary: newj2len best)
  case Nil
  then show ?case by simp
next
  case (Cons j js)
  obtain besti bestj bestsize where best: "best = (besti, bestj, bestsize)"
    by (cases best) auto
  show ?case
  proof (cases "j < blo")
    case True
    with Cons.prems have "inner_loop j2len blo bhi i js (newj2len, best) = (t', best')"
      by (simp add: inner_loop_low del: inner_loop.simps)
    with Cons.IH Cons.prems show ?thesis by blast
  next
    case nlo: False
    show ?thesis
    proof (cases "j \<ge> bhi")
      case True
      with nlo Cons.prems show ?thesis by (simp add: inner_loop_high del: inner_loop.simps)
    next
      case False
      define k where "k = kval j2len j"
      define best2 where "best2 = (if k > bestsize then (i + 1 - k, j + 1 - k, k) else (besti, bestj, bestsize))"
      have "j2len (j - 1) \<le> i - alo"
        using assms(1) by (simp add: table_ok_def)
      then have k1: "k \<le> i + 1 - alo"
        using assms(2) unfolding k_def kval_def by (cases "j = 0") auto
      have k2: "k \<le> j + 1 - blo"
      proof (cases "j = 0 \<or> j2len (j - 1) = 0")
        case True
        then show ?thesis using nlo by (auto simp: k_def kval_def)
      next
        case False
        from assms(1) have "j2len (j - 1) \<noteq> 0 \<longrightarrow>
            blo \<le> j - 1 \<and> j2len (j - 1) \<le> (j - 1) + 1 - blo"
          unfolding table_ok_def by blast
        with False have "blo \<le> j - 1" "j2len (j - 1) \<le> (j - 1) + 1 - blo" by auto
        then show ?thesis using False by (auto simp: k_def kval_def)
      qed
      have kpos: "k > 0" by (simp add: k_def kval_def)
      have t2: "table_ok alo blo (Suc i) (newj2len(j := k))"
        using Cons.prems(1) k1 k2 nlo by (auto simp: table_ok_def)
      have b2: "best_ok alo ahi blo bhi best2"
        using Cons.prems(2) k1 k2 kpos assms(2,3) False nlo best
        by (auto simp: best2_def best_ok_def)
      have "inner_loop j2len blo bhi i js (newj2len(j := k), best2) = (t', best')"
        using Cons.prems(3) nlo False unfolding best k_def best2_def
        by (simp add: inner_loop_step del: inner_loop.simps)
      with Cons.IH t2 b2 show ?thesis by blast
    qed
  qed
qed

lemma outer_loop_ok:
  "alo \<le> i0 \<Longrightarrow> table_ok alo blo i0 j2len \<Longrightarrow> best_ok alo ahi blo bhi best \<Longrightarrow>
   best_ok alo ahi blo bhi (outer_loop a b blo bhi [i0..<ahi] (j2len, best))"
proof (induction "ahi - i0" arbitrary: i0 j2len best)
  case 0
  then show ?case by simp
next
  case (Suc n)
  then have lt: "i0 < ahi" by simp
  obtain t' best' where il: "inner_loop j2len blo bhi i0 (b2j b (a ! i0)) (\<lambda>_. 0, best) = (t', best')"
    by (cases "inner_loop j2len blo bhi i0 (b2j b (a ! i0)) (\<lambda>_. 0, best)") auto
  have "table_ok alo blo (Suc i0) (\<lambda>_. 0)" by (simp add: table_ok_def)
  from inner_loop_ok[OF Suc.prems(2) Suc.prems(1) lt this Suc.prems(3) il]
  have ok: "table_ok alo blo (Suc i0) t'" "best_ok alo ahi blo bhi best'" by auto
  have "n = ahi - Suc i0" using Suc.hyps(2) by simp
  from Suc.hyps(1)[OF this _ ok] Suc.prems(1)
  have "best_ok alo ahi blo bhi (outer_loop a b blo bhi [Suc i0..<ahi] (t', best'))" by simp
  then show ?case using lt il by (simp add: upt_conv_Cons)
qed

lemma extend_back_ok:
  "best_ok alo ahi blo bhi m \<Longrightarrow> best_ok alo ahi blo bhi (extend_back a b alo blo m)"
proof (induction a b alo blo m rule: extend_back.induct)
  case (1 a b alo blo besti bestj bestsize)
  show ?case
  proof (cases "besti > alo \<and> bestj > blo \<and> a ! (besti - 1) = b ! (bestj - 1)")
    case True
    have "best_ok alo ahi blo bhi (besti - 1, bestj - 1, bestsize + 1)"
      using "1.prems" True by (auto simp: best_ok_def split: if_splits)
    from "1.IH"[OF True this] True show ?thesis
      by (subst extend_back.simps) simp
  next
    case False
    with "1.prems" show ?thesis by (subst extend_back.simps) auto
  qed
qed

lemma extend_fwd_ok:
  "best_ok alo ahi blo bhi m \<Longrightarrow> best_ok alo ahi blo bhi (extend_fwd a b ahi bhi m)"
proof (induction a b ahi bhi m rule: extend_fwd.induct)
  case (1 a b ahi bhi besti bestj bestsize)
  show ?case
  proof (cases "besti + bestsize < ahi \<and> bestj + bestsize < bhi
         \<and> a ! (besti + bestsize) = b ! (bestj + bestsize)")
    case True
    have "best_ok alo ahi blo bhi (besti, bestj, bestsize + 1)"
      using "1.prems" True by (auto simp: best_ok_def split: if_splits)
    from "1.IH"[OF True this] True show ?thesis
      by (subst extend_fwd.simps) simp
  next
    case False
    with "1.prems" show ?thesis by (subst extend_fwd.simps) auto
  qed
qed

lemma find_longest_match_ok:
  "best_ok alo ahi blo bhi (find_longest_match a b alo ahi blo bhi)"
  unfolding find_longest_match_def
  by (intro extend_fwd_ok extend_back_ok outer_loop_ok) (simp_all add: table_ok_def best_ok_def)

lemma find_longest_match_bounds:
  assumes "find_longest_match a b alo ahi blo bhi = (i, j, k)"
  shows "alo \<le> i" "blo \<le> j" "k \<noteq> 0 \<Longrightarrow> i + k \<le> ahi" "k \<noteq> 0 \<Longrightarrow> j + k \<le> bhi"
  using find_longest_match_ok[of alo ahi blo bhi a b] assms
  by (auto simp: best_ok_def split: if_splits)

subsection \<open>\<open>get_matching_blocks\<close> and \<open>ratio\<close>\<close>

text \<open>
  The \<open>while queue\<close> loop. \<open>queue.pop()\<close> takes the last element of the Python list, so
  the model keeps the queue with its most recently appended element first.
\<close>

type_synonym block = "nat \<times> nat \<times> nat \<times> nat"

definition queue_size :: "block list \<Rightarrow> nat" where
  "queue_size queue = sum_list (map (\<lambda>(alo, ahi, blo, bhi). 2 * (ahi - alo) + 1) queue)"

function matching_loop :: "string \<Rightarrow> string \<Rightarrow> block list \<Rightarrow> match list \<Rightarrow> match list" where
  "matching_loop a b [] matching_blocks = matching_blocks"
| "matching_loop a b ((alo, ahi, blo, bhi) # queue) matching_blocks =
     (case find_longest_match a b alo ahi blo bhi of
        (i, j, k) \<Rightarrow>
          if k \<noteq> 0 then
            matching_loop a b
              ((if i + k < ahi \<and> j + k < bhi then [(i + k, ahi, j + k, bhi)] else [])
               @ (if alo < i \<and> blo < j then [(alo, i, blo, j)] else []) @ queue)
              (matching_blocks @ [(i, j, k)])
          else matching_loop a b queue matching_blocks)"
  by pat_completeness auto
termination
  apply (relation "measure (\<lambda>(a, b, queue, matching_blocks). queue_size queue)")
  apply simp
  subgoal for a b alo ahi blo bhi queue matching_blocks i y j k
    using find_longest_match_bounds[of a b alo ahi blo bhi i j k]
    by (auto simp: queue_size_def)
  subgoal by (simp add: queue_size_def)
  done

declare matching_loop.simps [simp del]

text \<open>
  After \<open>matching_blocks.sort()\<close> (tuples compare lexicographically) adjacent blocks are
  merged; the state of that loop is \<open>(i1, j1, k1)\<close> and the result is \<open>non_adjacent\<close>.
\<close>

fun collapse :: "match \<Rightarrow> match list \<Rightarrow> match list" where
  "collapse (i1, j1, k1) [] = (if k1 \<noteq> 0 then [(i1, j1, k1)] else [])"
| "collapse (i1, j1, k1) ((i2, j2, k2) # rest) =
     (if i1 + k1 = i2 \<and> j1 + k1 = j2 then collapse (i1, j1, k1 + k2) rest
      else (if k1 \<noteq> 0 then [(i1, j1, k1)] else []) @ collapse (i2, j2, k2) rest)"

definition get_matching_blocks :: "string \<Rightarrow> string \<Rightarrow> match list" where
  "get_matching_blocks a b =
     collapse (0, 0, 0) (sort (matching_loop a b [(0, length a, 0, length b)] []))
       @ [(length a, length b, 0)]"

text \<open>
  \<open>_calculate_ratio\<close> returns the float \<open>2.0 * matches / length\<close>. The model computes
  the exact quotient as a rational number: the scores \<open>0\<close> and \<open>1\<close> are exact in both,
  and a quotient of two string lengths differs from a threshold such as \<open>0.7\<close> either
  not at all or by far more than a rounding error, so the comparisons agree.
\<close>

definition calculate_ratio :: "nat \<Rightarrow> nat \<Rightarrow> rat" where
  "calculate_ratio matches len = (if len \<noteq> 0 then 2 * of_nat matches / of_nat len else 1)"

definition ratio :: "string \<Rightarrow> string \<Rightarrow> rat" where
  "ratio a b =
     calculate_ratio (sum_list (map (\<lambda>(i, j, k). k) (get_matching_blocks a b)))
       (length a + length b)"

definition similarity_ratio :: "string \<Rightarrow> string \<Rightarrow> rat" where
  "similarity_ratio s1 s2 = ratio (lower s1) (lower s2)"

section \<open>Python floats\<close>

text \<open>
  A Python float is an IEEE 754 double. The model holds the exact value of a finite
  double as a rational number and rounds the exact result of an operation to the
  nearest double, ties to the even significand, as the hardware does: 53 significant
  bits, and below \<open>2 powi (- 1022)\<close> the fixed spacing of the subnormal numbers. Infinities
  and NaN are outside the model, so it covers operands whose result stays below
  \<open>2 powi 1024\<close> in magnitude.
\<close>

text \<open>The exponent \<open>e\<close> with \<open>2 powi e \<le> x < 2 powi (e + 1)\<close>, for a positive \<open>x\<close>.\<close>

definition floor_log2 :: "rat \<Rightarrow> int" where
  "floor_log2 x =
     (case quotient_of x of
        (p, q) \<Rightarrow> let d = bitlen p - bitlen q in if 2 powi d \<le> x then d else d - 1)"

definition round_half_even :: "rat \<Rightarrow> int" where
  "round_half_even x =
     (let f = \<lfloor>x\<rfloor>; d = x - of_int f
      in if d < 1 / 2 then f else if d > 1 / 2 then f + 1 else if even f then f else f + 1)"

definition round_double :: "rat \<Rightarrow> rat" where
  "round_double x =
     (if x = 0 then 0
      else
        (let e = floor_log2 \<bar>x\<bar>; quantum = 2 powi (max e (- 1022) - 52)
         in of_int (round_half_even (x / quantum)) * quantum))"

text \<open>
  \<open>x - y\<close> with a float operand: each operand is converted to float (the rounding
  leaves a float as it is and rounds an \<open>int\<close> that is not a double), and the exact
  difference of the two floats is rounded.
\<close>

definition float_sub :: "rat \<Rightarrow> rat \<Rightarrow> rat" where
  "float_sub x y = round_double (round_double x - round_double y)"

lemma floor_log2_bounds:
  assumes "0 < x"
  shows "2 powi (floor_log2 x) \<le> x \<and> x < 2 powi (floor_log2 x + 1)"
proof -
  obtain p q where pq: "quotient_of x = (p, q)" by (cases "quotient_of x")
  then have q: "0 < q" by (rule quotient_of_denom_pos)
  from pq have x: "x = of_int p / of_int q" by (rule quotient_of_div)
  with assms q have p: "0 < p" by (simp add: zero_less_divide_iff)
  define bp bq where "bp = bitlen p" and "bq = bitlen q"
  have bp1: "1 \<le> bp" and bq1: "1 \<le> bq"
    using p q by (simp_all add: bp_def bq_def bitlen_alt_def)
  have conv: "(2 :: rat) powi n = 2 ^ nat n" if "0 \<le> n" for n :: int
    using that by (simp add: power_int_def)
  have emb: "((2 :: int) ^ k \<le> m) = ((2 :: rat) ^ k \<le> of_int m)"
    "(m < (2 :: int) ^ k) = (of_int m < (2 :: rat) ^ k)" for k :: nat and m :: int
  proof -
    have "(of_int ((2 :: int) ^ k) :: rat) = 2 ^ k" by simp
    then show "((2 :: int) ^ k \<le> m) = ((2 :: rat) ^ k \<le> of_int m)"
      by (metis of_int_le_iff)
    have "(of_int ((2 :: int) ^ k) :: rat) = 2 ^ k" by simp
    then show "(m < (2 :: int) ^ k) = (of_int m < (2 :: rat) ^ k)"
      by (metis of_int_less_iff)
  qed
  from bitlen_bounds[OF p] have "(2 :: int) ^ nat (bp - 1) \<le> p" "p < 2 ^ nat bp"
    by (simp_all add: bp_def)
  then have P: "(2 :: rat) powi (bp - 1) \<le> of_int p" "of_int p < (2 :: rat) powi bp"
    using bp1 by (simp_all only: emb conv)
  from bitlen_bounds[OF q] have "(2 :: int) ^ nat (bq - 1) \<le> q" "q < 2 ^ nat bq"
    by (simp_all add: bq_def)
  then have Q: "(2 :: rat) powi (bq - 1) \<le> of_int q" "of_int q < (2 :: rat) powi bq"
    using bq1 by (simp_all only: emb conv)
  have qpos: "(0 :: rat) < of_int q" using q by simp
  have upper: "x < 2 powi (bp - bq + 1)"
  proof -
    have "of_int p < (2 :: rat) powi (bp - bq + 1) * 2 powi (bq - 1)"
      using P(2) by (simp flip: power_int_add)
    also have "\<dots> \<le> 2 powi (bp - bq + 1) * of_int q"
      using Q(1) by (intro mult_left_mono) simp_all
    finally show ?thesis using qpos by (simp add: x pos_divide_less_eq)
  qed
  have lower: "2 powi (bp - bq - 1) \<le> x"
  proof -
    have "(2 :: rat) powi (bp - bq - 1) * of_int q \<le> 2 powi (bp - bq - 1) * 2 powi bq"
      using Q(2) by (intro mult_left_mono) simp_all
    also have "\<dots> = 2 powi (bp - 1)" by (simp flip: power_int_add)
    also have "\<dots> \<le> of_int p" by (rule P(1))
    finally show ?thesis using qpos by (simp add: x pos_le_divide_eq)
  qed
  show ?thesis
    using upper lower pq
    by (auto simp: floor_log2_def Let_def bp_def bq_def not_le)
qed

lemma float_sub_same: "float_sub x x = 0"
  by (simp add: float_sub_def round_double_def)

text \<open>
  The doubles nearest to \<open>246.004\<close>, \<open>256.004\<close>, \<open>0.002\<close> and \<open>10.002\<close>, and two
  differences: the first is a double and is kept, the second is rounded to \<open>10\<close>.
\<close>

lemma round_double_examples:
  "round_double (246004 / 1000) = 8655496271341027 / 35184372088832"
  "round_double (256004 / 1000) = 2251834998057337 / 8796093022208"
  "round_double (2 / 1000) = 1152921504606847 / 576460752303423488"
  "round_double (10002 / 1000) = 5630625434119963 / 562949953421312"
  "float_sub (round_double (256004 / 1000)) (round_double (246004 / 1000))
     = 351843720888321 / 35184372088832"
  "float_sub (round_double (10002 / 1000)) (round_double (2 / 1000)) = 10"
  by code_simp+

section \<open>Track information and candidate evaluation (\<open>mp3ify.py\<close>)\<close>

text \<open>
  One liked-song entry as \<open>get_info_single_track\<close> reads it: the artist names
  \<open>[artist['name'] for artist in track['artists']]\<close>, \<open>track['name']\<close> and
  \<open>track['duration_ms']\<close>.
\<close>

record spotify_track =
  track_artists :: "string list"
  track_name :: string
  track_duration_ms :: int

text \<open>
  The dictionary that \<open>get_info_single_track\<close> returns. Its key \<open>duration_ms\<close> holds
  seconds: the float \<open>duration_ms / 1000\<close>, the correctly rounded quotient of the two
  integers. Durations are Python floats, held by their exact values.
\<close>

record track_info =
  artists :: "string list"
  song_name :: string
  duration_ms :: rat
  search_query :: string
  full_title :: string

definition get_info_single_track :: "spotify_track \<Rightarrow> error + track_info" where
  "get_info_single_track track =
     (case process_spotify_song_name (track_artists track) (track_name track) of
        Inl e \<Rightarrow> Inl e
      | Inr (arts, name) \<Rightarrow>
          Inr \<lparr>artists = arts,
               song_name = name,
               duration_ms = round_double (of_int (track_duration_ms track) / 1000),
               search_query = join '' '' arts @ '' - '' @ name @ '' autogenerated'',
               full_title = join '', '' arts @ '' - '' @ name\<rparr>)"

fun get_info_tracks :: "spotify_track list \<Rightarrow> error + track_info list" where
  "get_info_tracks [] = Inr []"
| "get_info_tracks (track # rest) =
     (case get_info_single_track track of
        Inl e \<Rightarrow> Inl e
      | Inr info \<Rightarrow>
          (case get_info_tracks rest of Inl e \<Rightarrow> Inl e | Inr tracks \<Rightarrow> Inr (info # tracks)))"

text \<open>
  One search result, with the keys that \<open>search_single_track\<close> reads. \<open>artist\<close> is
  \<open>result.get('artist', None)\<close>; the code passes it to \<open>", ".join\<close>, which accepts any
  iterable of strings, so the field is a list of strings (a Python \<open>str\<close> there would be
  the list of its one-character strings). \<open>duration\<close> is the exact value of the
  number under \<open>result['duration']\<close>.
\<close>

record result =
  duration :: rat
  title :: string
  artist :: "string list option"
  webpage_url :: string

text \<open>The triple \<open>(url, title_similarity, artist_similarity)\<close>; \<open>None\<close> is no url.\<close>

type_synonym evaluation = "string option \<times> rat \<times> rat"

definition search_single_track ::
  "result \<Rightarrow> track_info \<Rightarrow> rat \<Rightarrow> rat \<Rightarrow> rat \<Rightarrow> error + evaluation"
where
  "search_single_track res track duration_tolerance title_similarity_threshold
       artist_similarity_threshold =
     (let duration_diff = \<bar>float_sub (duration res) (duration_ms track)\<bar> in
      if duration_diff > duration_tolerance then Inr (None, 0, 0)
      else
        (case (case artist res of
                 None \<Rightarrow> process_yt_title (title res)
               | Some names \<Rightarrow> Inr (names, title res)) of
           Inl e \<Rightarrow> Inl e
         | Inr (names, ttl) \<Rightarrow>
             (let title_similarity = similarity_ratio ttl (song_name track);
                  artist_similarity =
                    similarity_ratio (join '', '' names) (join '', '' (artists track))
              in if title_similarity < title_similarity_threshold
                    \<or> artist_similarity < artist_similarity_threshold
                 then Inr (None, title_similarity, artist_similarity)
                 else Inr (Some (webpage_url res), title_similarity, artist_similarity))))"

section \<open>Resolution of one track\<close>

text \<open>\<open>if match[0]\<close>: \<open>None\<close> and the empty string are false.\<close>

fun truthy :: "string option \<Rightarrow> bool" where
  "truthy None = False"
| "truthy (Some url) = (url \<noteq> [])"

text \<open>
  \<open>for future in as_completed(futures): match = future.result(); if match[0]:
  matches.append(match)\<close>, over the outcomes in the order in which \<open>as_completed\<close>
  yields the futures. \<open>future.result()\<close> re-raises the exception of a failed evaluation.
\<close>

fun collect_matches :: "(error + evaluation) list \<Rightarrow> evaluation list \<Rightarrow> error + evaluation list" where
  "collect_matches [] matches = Inr matches"
| "collect_matches (Inl e # rest) matches = Inl e"
| "collect_matches (Inr m # rest) matches =
     collect_matches rest (if truthy (fst m) then matches @ [m] else matches)"

text \<open>
  \<open>max(matches, key=lambda x: x[1] + x[2])\<close> on a non-empty list: \<open>score\<close> is the
  key, and Python's \<open>max\<close> keeps the first of several maximal elements.
\<close>

definition score :: "evaluation \<Rightarrow> rat" where
  "score x = fst (snd x) + snd (snd x)"

fun max_from :: "evaluation \<Rightarrow> evaluation list \<Rightarrow> evaluation" where
  "max_from best [] = best"
| "max_from best (x # xs) = max_from (if score x > score best then x else best) xs"

text \<open>
  \<open>search_youtube_single_track\<close>. The search backend \<open>ydl.extract_info\<close> is a parameter:
  given \<open>max_results\<close> and the query it returns the entries, or \<open>None\<close> when it raises.
  The futures are submitted in the order of the entries. The order in which
  \<open>as_completed(futures)\<close> yields them is a parameter too: \<open>yield_order entries\<close> lists
  the indices of the entries in that order (a permutation of \<open>[0..<length entries]\<close>).
  The parameter stands for what one run does: \<open>as_completed\<close> first puts the futures
  in a set and yields the ones that have already finished in the iteration order of
  that set, and then the others as they finish. So it need be neither the order of
  submission nor the order of completion.
\<close>

definition search_youtube_single_track ::
  "(nat \<Rightarrow> string \<Rightarrow> result list option) \<Rightarrow> (result list \<Rightarrow> nat list) \<Rightarrow> track_info \<Rightarrow>
     nat \<Rightarrow> rat \<Rightarrow> rat \<Rightarrow> rat \<Rightarrow> error + (string option \<times> string)"
where
  "search_youtube_single_track extract_info yield_order track max_results duration_tolerance
       title_similarity_threshold artist_similarity_threshold =
     (case extract_info max_results (search_query track) of
        None \<Rightarrow> Inl SearchError
      | Some entries \<Rightarrow>
          (let futures = map (\<lambda>res. search_single_track res track duration_tolerance
                                   title_similarity_threshold artist_similarity_threshold) entries
           in case collect_matches (map (\<lambda>n. futures ! n) (yield_order entries)) [] of
                Inl e \<Rightarrow> Inl e
              | Inr matches \<Rightarrow>
                  (case matches of
                     [] \<Rightarrow> Inr (None, full_title track)
                   | m # ms \<Rightarrow> Inr (fst (max_from m ms), full_title track))))"

section \<open>Download of one track and the batch\<close>

text \<open>
  \<open>download_track\<close> calls \<open>search_youtube_single_track(track)\<close> with the default
  arguments (5 results, tolerance 10, thresholds 0.7 and 0.05) outside any \<open>try\<close>.
  \<open>download url title\<close> stands for \<open>ydl.download([url])\<close> into the file named after
  the title: \<open>True\<close> when it returns, \<open>False\<close> when it raises (the \<open>except\<close> clause
  then appends the title). The shared list \<open>failed_tracks\<close> is passed and returned.
\<close>

definition download_track ::
  "(nat \<Rightarrow> string \<Rightarrow> result list option) \<Rightarrow> (result list \<Rightarrow> nat list) \<Rightarrow>
     (string \<Rightarrow> string \<Rightarrow> bool) \<Rightarrow> track_info \<Rightarrow> string list \<Rightarrow> error + string list"
where
  "download_track extract_info yield_order download track failed_tracks =
     (case search_youtube_single_track extract_info yield_order track 5 10 (7 / 10) (5 / 100) of
        Inl e \<Rightarrow> Inl e
      | Inr (None, ttl) \<Rightarrow> Inr (failed_tracks @ [ttl])
      | Inr (Some url, ttl) \<Rightarrow>
          if download url ttl then Inr failed_tracks else Inr (failed_tracks @ [ttl]))"

text \<open>
  \<open>pool.starmap(download_track, ...)\<close>: the tracks are run one after the other here;
  an exception raised by a task is re-raised by \<open>starmap\<close> in the parent process.
\<close>

fun starmap ::
  "(track_info \<Rightarrow> string list \<Rightarrow> error + string list) \<Rightarrow> track_info list \<Rightarrow> string list \<Rightarrow>
     error + string list"
where
  "starmap task [] failed_tracks = Inr failed_tracks"
| "starmap task (track # rest) failed_tracks =
     (case task track failed_tracks of
        Inl e \<Rightarrow> Inl e
      | Inr failed_tracks' \<Rightarrow> starmap task rest failed_tracks')"

text \<open>
  The end of the main block: the pool, then the report, which is printed only when the
  pool returned. The result is the list of printed lines.
\<close>

definition run_batch ::
  "(nat \<Rightarrow> string \<Rightarrow> result list option) \<Rightarrow> (result list \<Rightarrow> nat list) \<Rightarrow>
     (string \<Rightarrow> string \<Rightarrow> bool) \<Rightarrow> track_info list \<Rightarrow> error + string list"
where
  "run_batch extract_info yield_order download tracks =
     (case starmap (download_track extract_info yield_order download) tracks [] of
        Inl e \<Rightarrow> Inl e
      | Inr failed_tracks \<Rightarrow>
          Inr (if failed_tracks \<noteq> []
               then ''The following tracks failed to download:''
                      # map (\<lambda>track. ''>>> '' @ track) failed_tracks
               else []))"

section \<open>Example inputs\<close>

text \<open>
  Two tracks as \<open>get_info_single_track\<close> builds them, candidates without an \<open>artist\<close>
  key, and the yield order that equals the submission order.
\<close>

definition track_AX :: track_info where
  "track_AX = \<lparr>artists = [''A''], song_name = ''X'', duration_ms = 100,
     search_query = ''A - X autogenerated'', full_title = ''A - X''\<rparr>"

definition track_BY :: track_info where
  "track_BY = \<lparr>artists = [''B''], song_name = ''Y'', duration_ms = 200,
     search_query = ''B - Y autogenerated'', full_title = ''B - Y''\<rparr>"

definition cand :: "rat \<Rightarrow> string \<Rightarrow> string \<Rightarrow> result" where
  "cand d t u = \<lparr>duration = d, title = t, artist = None, webpage_url = u\<rparr>"

definition submission_order :: "result list \<Rightarrow> nat list" where
  "submission_order entries = [0..<length entries]"

section \<open>Titles without the separator\<close>

lemma py_split_not_in: "\<not> str_in sep s \<Longrightarrow> py_split sep n s = [s]"
  by (subst py_split.simps) (simp add: str_in_def)

lemma process_yt_title_no_separator:
  "\<not> str_in '' - '' yt_title \<Longrightarrow> process_yt_title yt_title = Inl NotEnoughValues"
  by (simp add: process_yt_title_def py_split_not_in)

lemma malformed_title_raises:
  assumes "artist res = None" and "\<not> str_in '' - '' (title res)"
    and "\<not> \<bar>float_sub (duration res) (duration_ms track)\<bar> > tol"
  shows "search_single_track res track tol tthr athr = Inl NotEnoughValues"
  using assms by (simp add: search_single_track_def process_yt_title_no_separator)

text \<open>
  C1. The candidate \<open>"X official video"\<close> has no \<open>artist\<close> key and no \<open>" - "\<close> in its
  title, and its duration passes the gate: its evaluation raises the \<open>ValueError\<close> of
  the unpacking. The failure is not confined to that candidate. Next to the perfect
  candidate \<open>"A - X"\<close>, which alone resolves the track to \<open>u1\<close>, it makes
  \<open>search_youtube_single_track\<close> raise, whichever of the two \<open>as_completed\<close> yields
  first; \<open>download_track\<close> raises in turn without logging the title, and the batch ends
  with the error instead of the report.
\<close>

theorem malformed_title_escapes:
  "search_single_track (cand 100 ''X official video'' ''u2'') track_AX 10 (7 / 10) (5 / 100)
     = Inl NotEnoughValues
   \<and> search_youtube_single_track
        (\<lambda>n q. Some [cand 100 ''A - X'' ''u1'', cand 100 ''X official video'' ''u2''])
        submission_order track_AX 5 10 (7 / 10) (5 / 100) = Inl NotEnoughValues
   \<and> search_youtube_single_track
        (\<lambda>n q. Some [cand 100 ''A - X'' ''u1'', cand 100 ''X official video'' ''u2''])
        (\<lambda>entries. rev [0..<length entries]) track_AX 5 10 (7 / 10) (5 / 100)
      = Inl NotEnoughValues
   \<and> search_youtube_single_track
        (\<lambda>n q. Some [cand 100 ''A - X'' ''u1''])
        submission_order track_AX 5 10 (7 / 10) (5 / 100) = Inr (Some ''u1'', ''A - X'')
   \<and> download_track
        (\<lambda>n q. if q = ''A - X autogenerated''
                then Some [cand 100 ''A - X'' ''u1'', cand 100 ''X official video'' ''u2'']
                else Some [])
        submission_order (\<lambda>url ttl. True) track_AX [] = Inl NotEnoughValues
   \<and> run_batch
        (\<lambda>n q. if q = ''A - X autogenerated''
                then Some [cand 100 ''A - X'' ''u1'', cand 100 ''X official video'' ''u2'']
                else Some [])
        submission_order (\<lambda>url ttl. True) [track_AX, track_BY] = Inl NotEnoughValues"
  by code_simp

section \<open>A failing search\<close>

text \<open>
  C2. When the backend raises for the track \<open>A - X\<close>, \<open>download_track\<close> raises
  \<open>SearchError\<close> without appending the title to \<open>failed_tracks\<close>, and a batch that
  holds this track ends with that error instead of the report; the other track alone
  is reported as failed.
\<close>

theorem search_error_aborts_batch:
  "download_track (\<lambda>n q. if q = ''A - X autogenerated'' then None else Some [])
       submission_order (\<lambda>url ttl. True) track_AX [] = Inl SearchError
   \<and> run_batch (\<lambda>n q. if q = ''A - X autogenerated'' then None else Some [])
       submission_order (\<lambda>url ttl. True) [track_AX, track_BY] = Inl SearchError
   \<and> run_batch (\<lambda>n q. if q = ''A - X autogenerated'' then None else Some [])
       submission_order (\<lambda>url ttl. True) [track_BY]
      = Inr [''The following tracks failed to download:'', ''>>> B - Y'']"
  by code_simp

section \<open>The title of a search result with a marker on the right\<close>

text \<open>
  C4. On \<open>"A feat. B - Song (ft. C)"\<close> the artists are \<open>A\<close>, \<open>B\<close>, \<open>C\<close> and the title is
  the part of the right side before the marker as it stands, \<open>"Song "\<close> with its
  trailing space: the marker branch does not strip it.
\<close>

theorem process_yt_title_untrimmed_title:
  "process_yt_title ''A feat. B - Song (ft. C)'' = Inr ([''A'', ''B'', ''C''], ''Song '')"
  by code_simp

section \<open>The duration gate and the scores of a rejected candidate\<close>

text \<open>
  C5. A candidate whose duration differs from the track's by more than the tolerance
  is rejected with \<open>(None, 0, 0)\<close> whatever its title and artists are; a candidate
  whose duration differs by exactly the tolerance is accepted with its url and both
  scores as soon as both scores reach their thresholds. The difference is the one the
  program computes, the float \<open>result['duration'] - track_info['duration_ms']\<close>.
\<close>

theorem duration_gate:
  "(\<bar>float_sub (duration res) (duration_ms track)\<bar> > tol \<longrightarrow>
      search_single_track res track tol tthr athr = Inr (None, 0, 0))
   \<and> (\<bar>float_sub (duration res) (duration_ms track)\<bar> = tol
       \<and> (case artist res of None \<Rightarrow> process_yt_title (title res)
           | Some names \<Rightarrow> Inr (names, title res)) = Inr (names, ttl)
       \<and> tthr \<le> similarity_ratio ttl (song_name track)
       \<and> athr \<le> similarity_ratio (join '', '' names) (join '', '' (artists track)) \<longrightarrow>
      search_single_track res track tol tthr athr =
        Inr (Some (webpage_url res), similarity_ratio ttl (song_name track),
             similarity_ratio (join '', '' names) (join '', '' (artists track))))"
  by (auto simp: search_single_track_def Let_def)

text \<open>
  The gate at four inputs with a perfect title: 111 and 110 seconds against 100
  seconds, and two pairs whose decimal figures differ by 10. For a track of 246004 ms
  and a candidate of \<open>256.004\<close> seconds the computed difference is just above 10 and
  the candidate is rejected; for a track of 2 ms and a candidate of \<open>10.002\<close> seconds
  it is 10 and the candidate is accepted.
\<close>

theorem duration_gate_witness:
  "search_single_track (cand 111 ''A - X'' ''u1'') track_AX 10 (7 / 10) (5 / 100)
     = Inr (None, 0, 0)
   \<and> search_single_track (cand 110 ''A - X'' ''u1'') track_AX 10 (7 / 10) (5 / 100)
     = Inr (Some ''u1'', 1, 1)
   \<and> search_single_track (cand (round_double (256004 / 1000)) ''A - X'' ''u1'')
       (track_AX\<lparr>duration_ms := round_double (246004 / 1000)\<rparr>) 10 (7 / 10) (5 / 100)
     = Inr (None, 0, 0)
   \<and> search_single_track (cand (round_double (10002 / 1000)) ''A - X'' ''u1'')
       (track_AX\<lparr>duration_ms := round_double (2 / 1000)\<rparr>) 10 (7 / 10) (5 / 100)
     = Inr (Some ''u1'', 1, 1)"
proof -
  let ?far = "cand 111 ''A - X'' ''u1''" and ?edge = "cand 110 ''A - X'' ''u1''"
  let ?c3 = "cand (round_double (256004 / 1000)) ''A - X'' ''u1''"
  let ?t3 = "track_AX\<lparr>duration_ms := round_double (246004 / 1000)\<rparr>"
  let ?c4 = "cand (round_double (10002 / 1000)) ''A - X'' ''u1''"
  let ?t4 = "track_AX\<lparr>duration_ms := round_double (2 / 1000)\<rparr>"
  have far: "\<bar>float_sub (duration ?far) (duration_ms track_AX)\<bar> > 10" by code_simp
  have edge: "\<bar>float_sub (duration ?edge) (duration_ms track_AX)\<bar> = 10" by code_simp
  have far3: "\<bar>float_sub (duration ?c3) (duration_ms ?t3)\<bar> > 10" by code_simp
  have edge4: "\<bar>float_sub (duration ?c4) (duration_ms ?t4)\<bar> = 10" by code_simp
  have parsed: "(case artist (cand d ''A - X'' ''u1'') of
                   None \<Rightarrow> process_yt_title (title (cand d ''A - X'' ''u1''))
                 | Some names \<Rightarrow> Inr (names, title (cand d ''A - X'' ''u1'')))
                = Inr ([''A''], ''X'')" for d
  proof -
    have "process_yt_title ''A - X'' = Inr ([''A''], ''X'')" by code_simp
    then show ?thesis by (simp add: cand_def)
  qed
  have s1: "similarity_ratio ''X'' (song_name track_AX) = 1" by code_simp
  have s2: "similarity_ratio (join '', '' [''A'']) (join '', '' (artists track_AX)) = 1"
    by code_simp
  have s1': "similarity_ratio ''X'' (song_name ?t4) = 1" using s1 by simp
  have s2': "similarity_ratio (join '', '' [''A'']) (join '', '' (artists ?t4)) = 1"
    using s2 by simp
  have url: "webpage_url (cand d ''A - X'' ''u1'') = ''u1''" for d by (simp add: cand_def)
  have A: "search_single_track ?far track_AX 10 (7 / 10) (5 / 100) = Inr (None, 0, 0)"
    using duration_gate[where res = ?far and track = track_AX
        and tol = 10 and tthr = "7 / 10" and athr = "5 / 100"] far
    by blast
  have B: "search_single_track ?edge track_AX 10 (7 / 10) (5 / 100)
             = Inr (Some ''u1'', 1, 1)"
    using duration_gate[where res = ?edge and track = track_AX
        and tol = 10 and tthr = "7 / 10" and athr = "5 / 100" and names = "[''A'']"
        and ttl = "''X''"] edge parsed[of 110] s1 s2 url[of 110]
    by simp
  have C: "search_single_track ?c3 ?t3 10 (7 / 10) (5 / 100) = Inr (None, 0, 0)"
    using duration_gate[where res = ?c3 and track = ?t3
        and tol = 10 and tthr = "7 / 10" and athr = "5 / 100"] far3
    by blast
  have D: "search_single_track ?c4 ?t4 10 (7 / 10) (5 / 100) = Inr (Some ''u1'', 1, 1)"
    using duration_gate[where res = ?c4 and track = ?t4
        and tol = 10 and tthr = "7 / 10" and athr = "5 / 100" and names = "[''A'']"
        and ttl = "''X''"] edge4 parsed[of "round_double (10002 / 1000)"] s1' s2'
      url[of "round_double (10002 / 1000)"]
    by simp
  show ?thesis using A B C D by blast
qed

text \<open>
  C8 (as amended). An evaluation without url carries the scores \<open>(0, 0)\<close> when the
  duration gate rejected the candidate; when the thresholds rejected it, it carries
  the two similarity ratios that were computed, at least one of them below its
  threshold.
\<close>

theorem rejected_scores:
  assumes "search_single_track res track tol tthr athr = Inr (None, tscore, ascore)"
  shows "(\<bar>float_sub (duration res) (duration_ms track)\<bar> > tol \<and> tscore = 0 \<and> ascore = 0)
     \<or> (\<bar>float_sub (duration res) (duration_ms track)\<bar> \<le> tol
        \<and> (tscore < tthr \<or> ascore < athr)
        \<and> (\<exists>names ttl.
              (case artist res of None \<Rightarrow> process_yt_title (title res)
               | Some names \<Rightarrow> Inr (names, title res)) = Inr (names, ttl)
              \<and> tscore = similarity_ratio ttl (song_name track)
              \<and> ascore = similarity_ratio (join '', '' names) (join '', '' (artists track))))"
  using assms
  by (auto simp: search_single_track_def Let_def split: if_splits sum.splits option.splits)

theorem rejected_scores_witness:
  "search_single_track (cand 100 ''A - XYZW'' ''u1'') track_AX 10 (7 / 10) (5 / 100)
     = Inr (None, 2 / 5, 1)
   \<and> \<not> (\<bar>float_sub (duration (cand 100 ''A - XYZW'' ''u1'')) (duration_ms track_AX)\<bar> > 10)
   \<and> ((2 / 5 :: rat) < 7 / 10 \<or> (1 :: rat) < 5 / 100)"
proof -
  have ev: "search_single_track (cand 100 ''A - XYZW'' ''u1'') track_AX 10 (7 / 10) (5 / 100)
     = Inr (None, 2 / 5, 1)"
    by code_simp
  have near:
    "\<not> (\<bar>float_sub (duration (cand 100 ''A - XYZW'' ''u1'')) (duration_ms track_AX)\<bar> > 10)"
    by (simp add: cand_def track_AX_def float_sub_same)
  from rejected_scores[OF ev] near
  have "(2 / 5 :: rat) < 7 / 10 \<or> (1 :: rat) < 5 / 100" by blast
  with ev near show ?thesis by blast
qed

text \<open>
  C8 as stated fails: the candidate \<open>"A - XYZ"\<close> for the track \<open>A - X\<close> is rejected
  by the title threshold and its evaluation carries the scores \<open>1/2\<close> and \<open>1\<close>.
\<close>

theorem rejected_scores_counterexample:
  "search_single_track (cand 100 ''A - XYZ'' ''u1'') track_AX 10 (7 / 10) (5 / 100)
     = Inr (None, 1 / 2, 1)"
  by code_simp

section \<open>Selection of the best match\<close>







section \<open>Repeated markers\<close>

text \<open>
  \<open>occurrences sep s\<close> counts the positions of \<open>s\<close> at which \<open>sep\<close> starts. A
  separator whose first character does not occur in it again (\<open>unbordered\<close>) cannot
  overlap itself, so for the four markers this is \<open>s.count(sep)\<close> and one less than
  the number of pieces of \<open>s.split(sep)\<close>.
\<close>

fun occurrences :: "string \<Rightarrow> string \<Rightarrow> nat" where
  "occurrences sep [] = 0"
| "occurrences sep (c # cs) = (if prefix sep (c # cs) then 1 else 0) + occurrences sep cs"

definition unbordered :: "string \<Rightarrow> bool" where
  "unbordered sep = (sep \<noteq> [] \<and> hd sep \<notin> set (tl sep))"

lemma find_sub_None_occurrences:
  "sep \<noteq> [] \<Longrightarrow> (find_sub sep s = None) = (occurrences sep s = 0)"
  by (induction s) auto

lemma str_in_occurrences: "sep \<noteq> [] \<Longrightarrow> str_in sep s = (occurrences sep s \<noteq> 0)"
  by (simp add: str_in_def find_sub_None_occurrences)

lemma occurrences_skip:
  "sep \<noteq> [] \<Longrightarrow> hd sep \<notin> set xs \<Longrightarrow> occurrences sep (xs @ r) = occurrences sep r"
proof (induction xs)
  case Nil
  show ?case by simp
next
  case (Cons x xs)
  have "\<not> prefix sep (x # xs @ r)"
  proof
    assume "prefix sep (x # xs @ r)"
    with Cons.prems(1) have "hd sep = x" by (cases sep) auto
    with Cons.prems(2) show False by simp
  qed
  with Cons show ?case by simp
qed

lemma occurrences_find_sub:
  assumes "unbordered sep"
  shows "find_sub sep s = Some i \<Longrightarrow>
    occurrences sep s = Suc (occurrences sep (drop (i + length sep) s))"
proof (induction s arbitrary: i)
  case Nil
  with assms show ?case by (simp add: unbordered_def split: if_splits)
next
  case (Cons c cs)
  show ?case
  proof (cases "prefix sep (c # cs)")
    case True
    with Cons.prems have i: "i = 0" by simp
    from True obtain r where r: "c # cs = sep @ r" by (auto simp: prefix_def)
    from assms obtain t where sep: "sep = c # t" "c \<notin> set t"
      using r by (cases sep) (auto simp: unbordered_def)
    from r sep have cs: "cs = t @ r" by simp
    have "occurrences sep cs = occurrences sep r"
      unfolding cs using sep by (intro occurrences_skip) auto
    moreover have "drop (i + length sep) (c # cs) = r" using r i by simp
    ultimately show ?thesis using True by simp
  next
    case False
    with Cons.prems obtain i' where i': "find_sub sep cs = Some i'" "i = Suc i'" by auto
    from Cons.IH[OF i'(1)] False i'(2) show ?thesis by simp
  qed
qed

lemma py_split_nonempty: "py_split sep n s \<noteq> []"
  by (subst py_split.simps) (auto split: option.splits)

lemma length_py_split:
  "unbordered sep \<Longrightarrow> n < 0 \<Longrightarrow> length (py_split sep n s) = Suc (occurrences sep s)"
proof (induction sep n s rule: py_split.induct)
  case (1 sep maxsplit s)
  from "1.prems" have ne: "sep \<noteq> []" by (simp add: unbordered_def)
  show ?case
  proof (cases "find_sub sep s")
    case None
    then have "py_split sep maxsplit s = [s]" by (subst py_split.simps) simp
    moreover have "occurrences sep s = 0"
      using None ne by (simp add: find_sub_None_occurrences)
    ultimately show ?thesis by simp
  next
    case (Some i)
    have "length (py_split sep (maxsplit - 1) (drop (i + length sep) s))
            = Suc (occurrences sep (drop (i + length sep) s))"
      using "1.IH"[OF _ Some] "1.prems" ne by simp
    with Some ne "1.prems" occurrences_find_sub[OF "1.prems"(1) Some] show ?thesis
      by (subst py_split.simps) simp
  qed
qed

lemma feat_strings_unbordered: "m \<in> set feat_strings \<Longrightarrow> unbordered m"
  by (auto simp: feat_strings_def unbordered_def)


text \<open>The parts of \<open>s\<close> before and after the leftmost occurrence of \<open>sep\<close>.\<close>

definition left_of :: "string \<Rightarrow> string \<Rightarrow> string" where
  "left_of sep s = (case find_sub sep s of None \<Rightarrow> s | Some i \<Rightarrow> take i s)"

definition right_of :: "string \<Rightarrow> string \<Rightarrow> string" where
  "right_of sep s = (case find_sub sep s of None \<Rightarrow> [] | Some i \<Rightarrow> drop (i + length sep) s)"

lemma left_sep_right:
  assumes "str_in sep s"
  shows "s = left_of sep s @ sep @ right_of sep s"
proof -
  from assms obtain i where i: "find_sub sep s = Some i" by (auto simp: str_in_def)
  from find_sub_Some[OF i] have "take (length sep) (drop i s) = sep" by simp
  then have "drop i s = sep @ drop (length sep) (drop i s)"
    by (metis append_take_drop_id)
  then have "s = take i s @ sep @ drop (i + length sep) s"
    by (metis add.commute append_take_drop_id drop_drop)
  with i show ?thesis by (simp add: left_of_def right_of_def)
qed

lemma split_once:
  assumes "unbordered sep" "occurrences sep s = 1"
  shows "py_split sep (- 1) s = [left_of sep s, right_of sep s]"
proof -
  from assms have ne: "sep \<noteq> []" by (simp add: unbordered_def)
  from assms(2) ne obtain i where i: "find_sub sep s = Some i"
    by (cases "find_sub sep s") (auto simp: find_sub_None_occurrences)
  from occurrences_find_sub[OF assms(1) i] assms(2)
  have "occurrences sep (drop (i + length sep) s) = 0" by simp
  then have "find_sub sep (drop (i + length sep) s) = None"
    using ne by (simp add: find_sub_None_occurrences)
  then have rest: "py_split sep (- 1 - 1) (drop (i + length sep) s) = [drop (i + length sep) s]"
    by (subst py_split.simps) simp
  show ?thesis
    using i ne rest by (subst py_split.simps) (simp add: left_of_def right_of_def)
qed

lemma unpack2_split:
  assumes "unbordered sep" "str_in sep s"
  shows "unpack2 (py_split sep (- 1) s) =
     (if occurrences sep s = 1 then Inr (left_of sep s, right_of sep s) else Inl TooManyValues)"
proof (cases "occurrences sep s = 1")
  case True
  with split_once[OF assms(1) True] show ?thesis by simp
next
  case False
  from assms have "occurrences sep s \<noteq> 0" by (simp add: str_in_occurrences unbordered_def)
  with False have "occurrences sep s \<ge> 2" by simp
  moreover have "length (py_split sep (- 1) s) = Suc (occurrences sep s)"
    using length_py_split[OF assms(1), of "- 1" s] by simp
  ultimately have "3 \<le> length (py_split sep (- 1) s)" by simp
  then obtain x y z zs where "py_split sep (- 1) s = x # y # z # zs"
    by (auto simp: Suc_le_length_iff numeral_3_eq_3)
  with False show ?thesis by simp
qed

text \<open>The markers of a list that occur in \<open>s\<close>, in the order of the list.\<close>

definition matching :: "string list \<Rightarrow> string \<Rightarrow> string list" where
  "matching ms s = filter (\<lambda>m. str_in m s) ms"

lemma spotify_loop_too_many:
  "\<forall>m\<in>set ms. unbordered m \<Longrightarrow> \<exists>m\<in>set ms. 2 \<le> occurrences m s \<Longrightarrow>
   spotify_loop ms s st = Inl TooManyValues"
proof (induction ms arbitrary: st)
  case Nil
  then show ?case by simp
next
  case (Cons m ms)
  obtain t names where st: "st = (t, names)" by (cases st)
  have ub: "unbordered m" using Cons.prems(1) by simp
  show ?case
  proof (cases "str_in m s")
    case False
    then have "occurrences m s = 0" using ub by (simp add: str_in_occurrences unbordered_def)
    with Cons.prems(2) have "\<exists>m\<in>set ms. 2 \<le> occurrences m s" by auto
    with Cons.IH Cons.prems(1) False st show ?thesis by simp
  next
    case True
    show ?thesis
    proof (cases "occurrences m s = 1")
      case one: True
      with Cons.prems(2) have "\<exists>m\<in>set ms. 2 \<le> occurrences m s" by auto
      with Cons.IH Cons.prems(1) have "\<And>st'. spotify_loop ms s st' = Inl TooManyValues" by simp
      with True one st unpack2_split[OF ub True] show ?thesis by simp
    next
      case False
      with True st unpack2_split[OF ub True] show ?thesis by simp
    qed
  qed
qed

lemma spotify_loop_result:
  "\<forall>m\<in>set ms. unbordered m \<Longrightarrow> \<forall>m\<in>set ms. occurrences m s \<le> 1 \<Longrightarrow>
   spotify_loop ms s (t, names) =
     Inr (if matching ms s = [] then t else Some (left_of (last (matching ms s)) s),
          names @ concat (map (\<lambda>m. parse_featured (right_of m s)) (matching ms s)))"
proof (induction ms arbitrary: t names)
  case Nil
  then show ?case by (simp add: matching_def)
next
  case (Cons m ms)
  have ub: "unbordered m" using Cons.prems(1) by simp
  have IH: "\<And>t names. spotify_loop ms s (t, names) =
     Inr (if matching ms s = [] then t else Some (left_of (last (matching ms s)) s),
          names @ concat (map (\<lambda>m. parse_featured (right_of m s)) (matching ms s)))"
    using Cons.IH Cons.prems by simp
  show ?case
  proof (cases "str_in m s")
    case False
    then show ?thesis by (simp add: IH matching_def)
  next
    case True
    then have "occurrences m s \<noteq> 0" using ub by (simp add: str_in_occurrences unbordered_def)
    with Cons.prems(2) have one: "occurrences m s = 1" by (simp add: le_Suc_eq)
    have m: "matching (m # ms) s = m # matching ms s" using True by (simp add: matching_def)
    show ?thesis
      using True one unpack2_split[OF ub True] by (simp add: IH m)
  qed
qed

lemma parse_featured_nonempty: "parse_featured f \<noteq> []"
  by (simp add: parse_featured_def py_split_nonempty)

lemma process_spotify_song_name_result:
  assumes "\<forall>m\<in>set feat_strings. occurrences m song_title \<le> 1"
  shows "process_spotify_song_name song_artists song_title =
     Inr (append_new song_artists
            (concat (map (\<lambda>m. parse_featured (right_of m song_title))
                       (matching feat_strings song_title))),
          strip (if matching feat_strings song_title = [] then song_title
                 else left_of (last (matching feat_strings song_title)) song_title))"
proof -
  have sl: "spotify_loop feat_strings song_title (None, []) =
     Inr (if matching feat_strings song_title = [] then None
          else Some (left_of (last (matching feat_strings song_title)) song_title),
          [] @ concat (map (\<lambda>m. parse_featured (right_of m song_title))
                       (matching feat_strings song_title)))"
    using assms by (intro spotify_loop_result) (auto simp: feat_strings_unbordered)
  show ?thesis
  proof (cases "matching feat_strings song_title")
    case Nil
    with sl show ?thesis by (simp add: process_spotify_song_name_def)
  next
    case (Cons m ms)
    with sl show ?thesis
      by (simp add: process_spotify_song_name_def parse_featured_nonempty)
  qed
qed

lemma process_spotify_song_name_too_many:
  assumes "\<exists>m\<in>set feat_strings. 2 \<le> occurrences m song_title"
  shows "process_spotify_song_name song_artists song_title = Inl TooManyValues"
proof -
  have "spotify_loop feat_strings song_title (None, []) = Inl TooManyValues"
    using assms by (intro spotify_loop_too_many) (auto simp: feat_strings_unbordered)
  then show ?thesis by (simp add: process_spotify_song_name_def)
qed

lemma yt_loop_too_many:
  "\<forall>m\<in>set ms. unbordered m \<Longrightarrow>
   \<exists>m\<in>set ms. 2 \<le> occurrences m l \<or> 2 \<le> occurrences m r \<Longrightarrow>
   yt_loop ms l r st = Inl TooManyValues"
proof (induction ms arbitrary: st)
  case Nil
  then show ?case by simp
next
  case (Cons m ms)
  obtain la ra t where st: "st = (la, ra, t)" by (cases st)
  have ub: "unbordered m" using Cons.prems(1) by simp
  have zero: "\<And>x. \<not> str_in m x \<Longrightarrow> occurrences m x = 0"
    using ub by (simp add: str_in_occurrences unbordered_def)
  note L = unpack2_split[OF ub, of l] and R = unpack2_split[OF ub, of r]
  show ?case
  proof (cases "str_in m l \<and> occurrences m l \<noteq> 1")
    case True
    then show ?thesis unfolding st by (simp add: L)
  next
    case okl: False
    show ?thesis
    proof (cases "str_in m r \<and> occurrences m r \<noteq> 1")
      case True
      then show ?thesis unfolding st using okl by (cases "str_in m l") (simp_all add: L R)
    next
      case okr: False
      have "\<not> (2 \<le> occurrences m l \<or> 2 \<le> occurrences m r)"
        using okl okr zero[of l] zero[of r] by auto
      with Cons.prems(2) have "\<exists>m\<in>set ms. 2 \<le> occurrences m l \<or> 2 \<le> occurrences m r"
        by auto
      with Cons.IH Cons.prems(1) have IH: "\<And>st'. yt_loop ms l r st' = Inl TooManyValues"
        by simp
      show ?thesis unfolding st using okl okr
        by (cases "str_in m l"; cases "str_in m r") (simp_all add: L R IH)
    qed
  qed
qed

lemma unpack2_Inr: "unpack2 parts = Inr (x, y) \<Longrightarrow> parts = [x, y]"
  by (induction parts rule: unpack2.induct) auto

text \<open>
  C10. If one of the four markers occurs more than once in the catalog title,
  \<open>process_spotify_song_name\<close> raises the \<open>ValueError\<close> of the two-target unpacking; if
  one occurs more than once in the left or the right side of the \<open>" - "\<close> split,
  \<open>process_yt_title\<close> raises it. Hence a result of either normaliser requires every
  marker to occur at most once in each scanned string, that is, every matching marker
  to occur exactly once.
\<close>

theorem repeated_marker_raises:
  "((\<exists>m\<in>set feat_strings. 2 \<le> occurrences m song_title) \<longrightarrow>
      process_spotify_song_name song_artists song_title = Inl TooManyValues)
   \<and> (py_split '' - '' 1 yt_title = [left_side, right_side]
       \<and> (\<exists>m\<in>set feat_strings. 2 \<le> occurrences m left_side \<or> 2 \<le> occurrences m right_side)
      \<longrightarrow> process_yt_title yt_title = Inl TooManyValues)
   \<and> (process_spotify_song_name song_artists song_title = Inr res1 \<longrightarrow>
        (\<forall>m\<in>set feat_strings. occurrences m song_title \<le> 1))
   \<and> (process_yt_title yt_title = Inr res2 \<longrightarrow>
        (\<exists>l r. py_split '' - '' 1 yt_title = [l, r]
           \<and> (\<forall>m\<in>set feat_strings. occurrences m l \<le> 1 \<and> occurrences m r \<le> 1)))"
proof (intro conjI impI)
  assume "\<exists>m\<in>set feat_strings. 2 \<le> occurrences m song_title"
  then show "process_spotify_song_name song_artists song_title = Inl TooManyValues"
    by (rule process_spotify_song_name_too_many)
next
  assume a: "py_split '' - '' 1 yt_title = [left_side, right_side]
       \<and> (\<exists>m\<in>set feat_strings. 2 \<le> occurrences m left_side \<or> 2 \<le> occurrences m right_side)"
  then have "yt_loop feat_strings left_side right_side ([], [], None) = Inl TooManyValues"
    by (intro yt_loop_too_many) (auto simp: feat_strings_unbordered)
  with a show "process_yt_title yt_title = Inl TooManyValues"
    by (simp add: process_yt_title_def)
next
  assume a: "process_spotify_song_name song_artists song_title = Inr res1"
  show "\<forall>m\<in>set feat_strings. occurrences m song_title \<le> 1"
  proof (rule ccontr)
    assume "\<not> (\<forall>m\<in>set feat_strings. occurrences m song_title \<le> 1)"
    then obtain m where "m \<in> set feat_strings" "\<not> occurrences m song_title \<le> 1" by blast
    then have "m \<in> set feat_strings" "2 \<le> occurrences m song_title" by simp_all
    then have "\<exists>m\<in>set feat_strings. 2 \<le> occurrences m song_title" by blast
    from process_spotify_song_name_too_many[OF this] a show False by simp
  qed
next
  assume a: "process_yt_title yt_title = Inr res2"
  then obtain l r where u: "unpack2 (py_split '' - '' 1 yt_title) = Inr (l, r)"
    by (auto simp: process_yt_title_def split: sum.splits)
  then have sp: "py_split '' - '' 1 yt_title = [l, r]" by (rule unpack2_Inr)
  have "\<forall>m\<in>set feat_strings. occurrences m l \<le> 1 \<and> occurrences m r \<le> 1"
  proof (rule ccontr)
    assume "\<not> (\<forall>m\<in>set feat_strings. occurrences m l \<le> 1 \<and> occurrences m r \<le> 1)"
    then obtain m where "m \<in> set feat_strings"
        "\<not> (occurrences m l \<le> 1 \<and> occurrences m r \<le> 1)" by blast
    then have "m \<in> set feat_strings" "2 \<le> occurrences m l \<or> 2 \<le> occurrences m r"
      by auto
    then have "\<exists>m\<in>set feat_strings. 2 \<le> occurrences m l \<or> 2 \<le> occurrences m r"
      by blast
    then have "yt_loop feat_strings l r ([], [], None) = Inl TooManyValues"
      by (intro yt_loop_too_many) (auto simp: feat_strings_unbordered)
    with a u show False by (simp add: process_yt_title_def)
  qed
  with sp show "\<exists>l r. py_split '' - '' 1 yt_title = [l, r]
           \<and> (\<forall>m\<in>set feat_strings. occurrences m l \<le> 1 \<and> occurrences m r \<le> 1)" by blast
qed

theorem repeated_marker_raises_witness:
  "process_spotify_song_name [''A''] ''Song feat. B feat. C'' = Inl TooManyValues
   \<and> process_yt_title ''A - Song (ft. B) (ft. C)'' = Inl TooManyValues
   \<and> process_spotify_song_name [''A''] ''Song feat. B'' = Inr ([''A'', ''B''], ''Song'')
   \<and> occurrences '' feat.'' ''Song feat. B'' \<le> 1
   \<and> process_yt_title ''A - Song (ft. B)'' = Inr ([''A'', ''B''], ''Song '')
   \<and> (\<exists>l r. py_split '' - '' 1 ''A - Song (ft. B)'' = [l, r]
         \<and> occurrences ''(ft.'' l \<le> 1 \<and> occurrences ''(ft.'' r \<le> 1)"
proof -
  have h1: "\<exists>m\<in>set feat_strings. 2 \<le> occurrences m ''Song feat. B feat. C''"
    by (simp add: feat_strings_def)
  have h2: "py_split '' - '' 1 ''A - Song (ft. B) (ft. C)'' = [''A'', ''Song (ft. B) (ft. C)'']
      \<and> (\<exists>m\<in>set feat_strings. 2 \<le> occurrences m ''A''
             \<or> 2 \<le> occurrences m ''Song (ft. B) (ft. C)'')"
  proof
    show "py_split '' - '' 1 ''A - Song (ft. B) (ft. C)'' = [''A'', ''Song (ft. B) (ft. C)'']"
      by code_simp
    show "\<exists>m\<in>set feat_strings. 2 \<le> occurrences m ''A''
             \<or> 2 \<le> occurrences m ''Song (ft. B) (ft. C)''"
      by (simp add: feat_strings_def)
  qed
  have h3: "process_spotify_song_name [''A''] ''Song feat. B'' = Inr ([''A'', ''B''], ''Song'')"
    by code_simp
  have h4: "process_yt_title ''A - Song (ft. B)'' = Inr ([''A'', ''B''], ''Song '')"
    by code_simp
  note inst1 = repeated_marker_raises[where song_title = "''Song feat. B feat. C''"
      and song_artists = "[''A'']" and yt_title = "''A - Song (ft. B) (ft. C)''"
      and left_side = "''A''" and right_side = "''Song (ft. B) (ft. C)''"]
  note inst2 = repeated_marker_raises[where song_title = "''Song feat. B''"
      and song_artists = "[''A'']" and yt_title = "''A - Song (ft. B)''"
      and ?res1.0 = "([''A'', ''B''], ''Song'')" and ?res2.0 = "([''A'', ''B''], ''Song '')"]
  have c1: "process_spotify_song_name [''A''] ''Song feat. B feat. C'' = Inl TooManyValues"
    using inst1 h1 by blast
  have c2: "process_yt_title ''A - Song (ft. B) (ft. C)'' = Inl TooManyValues"
    using inst1 h2 by blast
  have c3: "\<forall>m\<in>set feat_strings. occurrences m ''Song feat. B'' \<le> 1"
    using inst2 h3 by blast
  have c4: "\<exists>l r. py_split '' - '' 1 ''A - Song (ft. B)'' = [l, r]
         \<and> (\<forall>m\<in>set feat_strings. occurrences m l \<le> 1 \<and> occurrences m r \<le> 1)"
    using inst2 h4 by blast
  have m1: "'' feat.'' \<in> set feat_strings" and m2: "''(ft.'' \<in> set feat_strings"
    by (simp_all add: feat_strings_def)
  from c3 m1 have c3': "occurrences '' feat.'' ''Song feat. B'' \<le> 1" by blast
  from c4 m2 have c4': "\<exists>l r. py_split '' - '' 1 ''A - Song (ft. B)'' = [l, r]
         \<and> occurrences ''(ft.'' l \<le> 1 \<and> occurrences ''(ft.'' r \<le> 1" by blast
  show ?thesis using c1 c2 h3 c3' h4 c4' by blast
qed

section \<open>The marker loop of the catalog normaliser\<close>

lemma append_new_spec:
  "\<exists>new. append_new song_artists names = song_artists @ new \<and> distinct new
     \<and> set new = set names - set song_artists \<and> subseq new names"
proof (induction names arbitrary: song_artists)
  case Nil
  show ?case by simp
next
  case (Cons n names)
  show ?case
  proof (cases "n \<in> set song_artists")
    case True
    from Cons.IH[of song_artists] obtain new where
      "append_new song_artists names = song_artists @ new" "distinct new"
      "set new = set names - set song_artists" "subseq new names" by blast
    with True have "append_new song_artists (n # names) = song_artists @ new \<and> distinct new
      \<and> set new = set (n # names) - set song_artists \<and> subseq new (n # names)"
      by auto
    then show ?thesis by blast
  next
    case False
    from Cons.IH[of "song_artists @ [n]"] obtain new where
      "append_new (song_artists @ [n]) names = (song_artists @ [n]) @ new" "distinct new"
      "set new = set names - set (song_artists @ [n])" "subseq new names" by blast
    with False have "append_new song_artists (n # names) = song_artists @ (n # new)
      \<and> distinct (n # new) \<and> set (n # new) = set (n # names) - set song_artists
      \<and> subseq (n # new) (n # names)"
      by auto
    then show ?thesis by blast
  qed
qed

text \<open>
  C3 (as amended). \<open>process_spotify_song_name\<close> tries the four markers in their fixed
  order and does not stop at the first that matches. When no marker occurs more than
  once (otherwise the call raises), the featured names of the clause of every matching
  marker are collected in marker order, the retained title is the trimmed part left
  of the last matching marker (the whole title, trimmed, when none matches), and the
  collected names that the artist list does not hold yet are appended to it once each,
  in their order. With a single matching marker this is the first-match behaviour.
\<close>

theorem process_spotify_song_name_all_markers:
  assumes "\<forall>m\<in>set feat_strings. occurrences m song_title \<le> 1"
  shows "process_spotify_song_name song_artists song_title =
     Inr (append_new song_artists
            (concat (map (\<lambda>m. parse_featured (right_of m song_title))
                       (matching feat_strings song_title))),
          strip (if matching feat_strings song_title = [] then song_title
                 else left_of (last (matching feat_strings song_title)) song_title))
     \<and> (\<exists>new. append_new song_artists
            (concat (map (\<lambda>m. parse_featured (right_of m song_title))
                       (matching feat_strings song_title))) = song_artists @ new
          \<and> distinct new
          \<and> set new = set (concat (map (\<lambda>m. parse_featured (right_of m song_title))
                       (matching feat_strings song_title))) - set song_artists
          \<and> subseq new (concat (map (\<lambda>m. parse_featured (right_of m song_title))
                       (matching feat_strings song_title))))"
  using process_spotify_song_name_result[OF assms] append_new_spec by blast

theorem process_spotify_song_name_all_markers_witness:
  "process_spotify_song_name [''A''] ''Song feat. B (ft. C)''
     = Inr ([''A'', ''B (ft. C'', ''C''], ''Song feat. B'')
   \<and> matching feat_strings ''Song feat. B (ft. C)'' = ['' feat.'', ''(ft.'']"
proof -
  have h: "\<forall>m\<in>set feat_strings. occurrences m ''Song feat. B (ft. C)'' \<le> 1"
    by (simp add: feat_strings_def)
  have m: "matching feat_strings ''Song feat. B (ft. C)'' = ['' feat.'', ''(ft.'']"
    by code_simp
  have "process_spotify_song_name [''A''] ''Song feat. B (ft. C)'' =
     Inr (append_new [''A'']
            (concat (map (\<lambda>m. parse_featured (right_of m ''Song feat. B (ft. C)''))
                       (matching feat_strings ''Song feat. B (ft. C)''))),
          strip (if matching feat_strings ''Song feat. B (ft. C)'' = []
                 then ''Song feat. B (ft. C)''
                 else left_of (last (matching feat_strings ''Song feat. B (ft. C)''))
                        ''Song feat. B (ft. C)''))"
    using process_spotify_song_name_all_markers[OF h, of "[''A'']"] by (rule conjunct1)
  also have "\<dots> = Inr ([''A'', ''B (ft. C'', ''C''], ''Song feat. B'')"
    by code_simp
  finally show ?thesis using m by simp
qed

text \<open>
  C3 as stated fails on a title with two markers: \<open>" feat."\<close> is the first marker that
  matches \<open>"Song feat. B (ft. C)"\<close> and the part left of it is \<open>"Song"\<close>, but the later
  marker \<open>"(ft."\<close> is processed as well: the title becomes \<open>"Song feat. B"\<close> and the name
  \<open>C\<close> of the second clause is appended too.
\<close>

theorem first_match_counterexample:
  "process_spotify_song_name [''A''] ''Song feat. B (ft. C)''
     = Inr ([''A'', ''B (ft. C'', ''C''], ''Song feat. B'')
   \<and> hd (matching feat_strings ''Song feat. B (ft. C)'') = '' feat.''
   \<and> strip (left_of '' feat.'' ''Song feat. B (ft. C)'') = ''Song''
   \<and> parse_featured (right_of '' feat.'' ''Song feat. B (ft. C)'') = [''B (ft. C'']"
  by code_simp

section \<open>Range of the similarity ratio\<close>

text \<open>
  \<open>sum_k\<close> is the number of matched characters of a list of blocks. Every window
  \<open>(alo, ahi, blo, bhi)\<close> of the queue can contribute at most
  \<open>min (ahi - alo) (bhi - blo)\<close> of them (\<open>capacity\<close>).
\<close>

definition sum_k :: "match list \<Rightarrow> nat" where
  "sum_k blocks = sum_list (map (\<lambda>(i, j, k). k) blocks)"

definition capacity :: "block list \<Rightarrow> nat" where
  "capacity queue = sum_list (map (\<lambda>(alo, ahi, blo, bhi). min (ahi - alo) (bhi - blo)) queue)"

lemma sum_k_append: "sum_k (xs @ ys) = sum_k xs + sum_k ys"
  by (simp add: sum_k_def)

lemma capacity_simps:
  "capacity [] = 0"
  "capacity ((alo, ahi, blo, bhi) # queue) = min (ahi - alo) (bhi - blo) + capacity queue"
  "capacity (xs @ ys) = capacity xs + capacity ys"
  by (simp_all add: capacity_def)

lemma matching_loop_sum:
  "sum_k (matching_loop a b queue blocks) \<le> sum_k blocks + capacity queue"
proof (induction a b queue blocks rule: matching_loop.induct)
  case (1 a b blocks)
  show ?case by (simp add: matching_loop.simps(1))
next
  case (2 a b alo ahi blo bhi queue blocks)
  obtain i j k where flm: "find_longest_match a b alo ahi blo bhi = (i, j, k)"
    by (cases "find_longest_match a b alo ahi blo bhi") auto
  note bnd = find_longest_match_bounds[OF flm]
  let ?new = "(if i + k < ahi \<and> j + k < bhi then [(i + k, ahi, j + k, bhi)] else [])
               @ (if alo < i \<and> blo < j then [(alo, i, blo, j)] else [])"
  have step: "matching_loop a b ((alo, ahi, blo, bhi) # queue) blocks =
      (if k \<noteq> 0 then matching_loop a b (?new @ queue) (blocks @ [(i, j, k)])
       else matching_loop a b queue blocks)"
    by (subst matching_loop.simps(2)) (simp add: flm)
  show ?case
  proof (cases "k = 0")
    case True
    with "2.IH"(2)[OF flm[symmetric] refl]
    have "sum_k (matching_loop a b queue blocks) \<le> sum_k blocks + capacity queue" by simp
    with True show ?thesis unfolding step by (simp add: capacity_simps)
  next
    case False
    from "2.IH"(1)[OF flm[symmetric] refl] False
    have "sum_k (matching_loop a b (?new @ queue) (blocks @ [(i, j, k)]))
            \<le> sum_k (blocks @ [(i, j, k)]) + capacity (?new @ queue)" by simp
    moreover have "k + capacity ?new \<le> min (ahi - alo) (bhi - blo)"
      using bnd False by (auto simp: capacity_simps)
    moreover have "sum_k (blocks @ [(i, j, k)]) = sum_k blocks + k"
      by (simp add: sum_k_def)
    moreover have "capacity (?new @ queue) = capacity ?new + capacity queue"
      by (rule capacity_simps(3))
    ultimately have "sum_k (matching_loop a b (?new @ queue) (blocks @ [(i, j, k)]))
            \<le> sum_k blocks + (min (ahi - alo) (bhi - blo) + capacity queue)"
      by linarith
    with False show ?thesis unfolding step by (simp add: capacity_simps)
  qed
qed

lemma sum_k_collapse: "sum_k (collapse (i1, j1, k1) blocks) = k1 + sum_k blocks"
  by (induction "(i1, j1, k1)" blocks arbitrary: i1 j1 k1 rule: collapse.induct)
    (auto simp: sum_k_def)

lemma sum_k_sort: "sum_k (sort blocks) = sum_k blocks"
proof -
  have "sum_k xs = sum_mset (image_mset (\<lambda>(i, j, k). k) (mset xs))" for xs :: "match list"
    by (simp add: sum_k_def sum_mset_sum_list[symmetric])
  then show ?thesis by simp
qed

lemma ratio_matches:
  "ratio a b = calculate_ratio (sum_k (matching_loop a b [(0, length a, 0, length b)] []))
     (length a + length b)"
  by (simp add: ratio_def get_matching_blocks_def sum_k_collapse sum_k_sort
      sum_k_append[unfolded sum_k_def] sum_k_def[symmetric])

lemma ratio_range: "0 \<le> ratio a b \<and> ratio a b \<le> 1"
proof -
  let ?m = "sum_k (matching_loop a b [(0, length a, 0, length b)] [])"
  have "?m \<le> sum_k [] + capacity [(0, length a, 0, length b)]" by (rule matching_loop_sum)
  then have "?m \<le> min (length a) (length b)" by (simp add: capacity_simps sum_k_def)
  then have "2 * ?m \<le> length a + length b" by simp
  then have "2 * (of_nat ?m :: rat) \<le> of_nat (length a + length b)"
    by (metis of_nat_mult of_nat_le_iff of_nat_numeral)
  then show ?thesis
    unfolding ratio_matches calculate_ratio_def
    by (auto simp: divide_le_eq)
qed

section \<open>The similarity of a string with itself\<close>

text \<open>
  For \<open>b = a\<close> the first window is the whole string on both sides. \<open>clean_run a m\<close>
  is the length of the run of non-popular characters that ends just before index
  \<open>m\<close>. In \<open>find_longest_match\<close> the entry of \<open>j2len\<close> on the diagonal is that run
  and no other entry is larger (\<open>self_table\<close>), so the best block stays on the
  diagonal (\<open>self_best\<close>) and the two extension loops grow it to the whole string.
\<close>

fun clean_run :: "string \<Rightarrow> nat \<Rightarrow> nat" where
  "clean_run a 0 = 0"
| "clean_run a (Suc m) = (if is_popular a (a ! m) then 0 else clean_run a m + 1)"

definition self_table :: "string \<Rightarrow> nat \<Rightarrow> (nat \<Rightarrow> nat) \<Rightarrow> bool" where
  "self_table a i t =
     ((\<forall>j. t j \<le> clean_run a i \<and> t j \<le> clean_run a (Suc j))
      \<and> (i > 0 \<longrightarrow> t (i - 1) = clean_run a i))"

definition self_best :: "string \<Rightarrow> nat \<Rightarrow> match \<Rightarrow> bool" where
  "self_best a i m = (case m of (bi, bj, bs) \<Rightarrow> bi = bj \<and> (\<forall>m\<le>i. clean_run a m \<le> bs))"

lemma inner_loop_append:
  "\<forall>j\<in>set xs. blo \<le> j \<and> j < bhi \<Longrightarrow>
   inner_loop t blo bhi i (xs @ ys) st = inner_loop t blo bhi i ys (inner_loop t blo bhi i xs st)"
proof (induction xs arbitrary: st)
  case Nil
  show ?case by simp
next
  case (Cons j xs)
  obtain n bi bj bs where st: "st = (n, bi, bj, bs)" by (cases st)
  from Cons.prems have j: "\<not> j < blo" "\<not> bhi \<le> j" by auto
  from Cons.prems have "\<forall>j\<in>set xs. blo \<le> j \<and> j < bhi" by simp
  note IH = Cons.IH[OF this]
  show ?case
    unfolding st append_Cons inner_loop_step[OF j] by (rule IH)
qed

lemma inner_loop_table:
  "\<forall>j\<in>set js. blo \<le> j \<and> j < bhi \<Longrightarrow>
   fst (inner_loop t blo bhi i js (n, best)) = (\<lambda>j. if j \<in> set js then kval t j else n j)"
proof (induction js arbitrary: n best)
  case Nil
  show ?case by simp
next
  case (Cons j js)
  obtain bi bj bs where best: "best = (bi, bj, bs)" by (cases best)
  from Cons.prems have j: "\<not> j < blo" "\<not> bhi \<le> j" by auto
  from Cons.prems have "\<forall>j\<in>set js. blo \<le> j \<and> j < bhi" by simp
  note IH = Cons.IH[OF this]
  show ?case
    unfolding best inner_loop_step[OF j] IH by (auto simp: fun_eq_iff)
qed

lemma inner_loop_no_update:
  "\<forall>j\<in>set js. blo \<le> j \<and> j < bhi \<and> kval t j \<le> bs \<Longrightarrow>
   snd (inner_loop t blo bhi i js (n, bi, bj, bs)) = (bi, bj, bs)"
proof (induction js arbitrary: n)
  case Nil
  show ?case by simp
next
  case (Cons j js)
  from Cons.prems have j: "\<not> j < blo" "\<not> bhi \<le> j" and k: "\<not> kval t j > bs" by auto
  from Cons.prems have "\<forall>j\<in>set js. blo \<le> j \<and> j < bhi \<and> kval t j \<le> bs" by simp
  note IH = Cons.IH[OF this]
  show ?case
    unfolding inner_loop_step[OF j] using k IH by simp
qed

lemma b2j_self:
  assumes "i < length a" "\<not> is_popular a (a ! i)"
  shows "b2j a (a ! i) = filter (\<lambda>j. a ! j = a ! i) [0..<i] @ [i]
           @ filter (\<lambda>j. a ! j = a ! i) [Suc i..<length a]"
proof -
  have "[0..<i + (length a - i)] = [0..<i] @ [i..<i + (length a - i)]"
    by (rule upt_add_eq_append) simp
  then have "[0..<length a] = [0..<i] @ [i..<length a]" using assms(1) by simp
  moreover have "[i..<length a] = i # [Suc i..<length a]"
    using assms(1) by (simp add: upt_conv_Cons)
  ultimately have "[0..<length a] = [0..<i] @ [i] @ [Suc i..<length a]" by simp
  then have "filter (\<lambda>j. a ! j = a ! i) [0..<length a] =
      filter (\<lambda>j. a ! j = a ! i) [0..<i] @ [i] @ filter (\<lambda>j. a ! j = a ! i) [Suc i..<length a]"
    by simp
  with assms(2) show ?thesis by (simp add: b2j_def)
qed

lemma kval_bounds:
  assumes "self_table a i t" "\<not> is_popular a (a ! i)" "a ! j = a ! i"
  shows "kval t j \<le> clean_run a (Suc j)" "kval t j \<le> clean_run a (Suc i)"
proof -
  from assms(2,3) have np: "\<not> is_popular a (a ! j)" by simp
  show "kval t j \<le> clean_run a (Suc j)"
  proof (cases j)
    case 0
    with np show ?thesis by (simp add: kval_def)
  next
    case (Suc j')
    from assms(1) have "t j' \<le> clean_run a (Suc j')" by (simp add: self_table_def)
    with np Suc show ?thesis by (simp add: kval_def)
  qed
  from assms(1) have "\<And>x. t x \<le> clean_run a i" by (simp add: self_table_def)
  then have "(if j = 0 then 0 else t (j - 1)) \<le> clean_run a i" by simp
  with assms(2) show "kval t j \<le> clean_run a (Suc i)" by (simp add: kval_def)
qed

lemma kval_diag:
  assumes "self_table a i t" "\<not> is_popular a (a ! i)"
  shows "kval t i = clean_run a (Suc i)"
  using assms by (cases i) (auto simp: kval_def self_table_def)

lemma self_row:
  assumes i: "i < length a" and t: "self_table a i t" and b: "self_best a i best"
  shows "\<exists>t' best'. inner_loop t 0 (length a) i (b2j a (a ! i)) (\<lambda>_. 0, best) = (t', best')
     \<and> self_table a (Suc i) t' \<and> self_best a (Suc i) best'"
proof (cases "is_popular a (a ! i)")
  case True
  then have "b2j a (a ! i) = []" by (simp add: b2j_def)
  moreover have "self_table a (Suc i) (\<lambda>_. 0)" using True by (simp add: self_table_def)
  moreover have "self_best a (Suc i) best"
    using b True by (cases best) (auto simp: self_best_def le_Suc_eq)
  ultimately show ?thesis by simp
next
  case False
  obtain bi bs where best: "best = (bi, bi, bs)" and bs: "\<forall>m\<le>i. clean_run a m \<le> bs"
    using b by (cases best) (auto simp: self_best_def)
  let ?P = "\<lambda>j. a ! j = a ! i"
  let ?js1 = "filter ?P [0..<i]" and ?js2 = "filter ?P [Suc i..<length a]"
  let ?k = "kval t i"
  have js: "b2j a (a ! i) = ?js1 @ [i] @ ?js2" by (rule b2j_self[OF i False])
  have in1: "\<forall>j\<in>set ?js1. 0 \<le> j \<and> j < length a \<and> kval t j \<le> bs"
  proof
    fix j assume "j \<in> set ?js1"
    then have j: "j < i" "a ! j = a ! i" by auto
    from bs have "Suc j \<le> i \<longrightarrow> clean_run a (Suc j) \<le> bs" by blast
    with j(1) have "clean_run a (Suc j) \<le> bs" by (simp del: clean_run.simps)
    with kval_bounds(1)[OF t False j(2)] have "kval t j \<le> bs" by simp
    with j i show "0 \<le> j \<and> j < length a \<and> kval t j \<le> bs" by simp
  qed
  obtain n1 where s1: "inner_loop t 0 (length a) i ?js1 (\<lambda>_. 0, bi, bi, bs) = (n1, bi, bi, bs)"
    using inner_loop_no_update[OF in1, of i "\<lambda>_. 0" bi bi]
    by (cases "inner_loop t 0 (length a) i ?js1 (\<lambda>_. 0, bi, bi, bs)") auto
  define best2 where "best2 = (if ?k > bs then (i + 1 - ?k, i + 1 - ?k, ?k) else (bi, bi, bs))"
  obtain ci cs where best2: "best2 = (ci, ci, cs)" and cs: "bs \<le> cs" "?k \<le> cs"
    by (cases "?k > bs") (auto simp: best2_def)
  have s2: "inner_loop t 0 (length a) i [i] (n1, bi, bi, bs) = (n1(i := ?k), best2)"
    using i by (simp add: inner_loop_step best2_def del: inner_loop.simps(2))
  have in2: "\<forall>j\<in>set ?js2. 0 \<le> j \<and> j < length a \<and> kval t j \<le> cs"
  proof
    fix j assume "j \<in> set ?js2"
    then have j: "j < length a" "a ! j = a ! i" by auto
    from kval_bounds(2)[OF t False j(2)] kval_diag[OF t False] cs(2)
    have "kval t j \<le> cs" by simp
    with j show "0 \<le> j \<and> j < length a \<and> kval t j \<le> cs" by simp
  qed
  obtain n3 where s3: "inner_loop t 0 (length a) i ?js2 (n1(i := ?k), ci, ci, cs) = (n3, ci, ci, cs)"
    using inner_loop_no_update[OF in2, of i "n1(i := ?k)" ci ci]
    by (cases "inner_loop t 0 (length a) i ?js2 (n1(i := ?k), ci, ci, cs)") auto
  have inb: "\<forall>j\<in>set (b2j a (a ! i)). 0 \<le> j \<and> j < length a"
    using i unfolding js by auto
  have run: "inner_loop t 0 (length a) i (b2j a (a ! i)) (\<lambda>_. 0, best) = (n3, ci, ci, cs)"
  proof -
    have a1: "\<forall>j\<in>set ?js1. 0 \<le> j \<and> j < length a" using in1 by simp
    have a2: "\<forall>j\<in>set [i]. 0 \<le> j \<and> j < length a" using i by simp
    show ?thesis
      unfolding js best inner_loop_append[OF a1] inner_loop_append[OF a2] s1 s2 best2 s3 ..
  qed
  have tab: "n3 = (\<lambda>j. if j \<in> set (b2j a (a ! i)) then kval t j else 0)"
  proof -
    have "fst (inner_loop t 0 (length a) i (b2j a (a ! i)) (\<lambda>_. 0, best)) =
        (\<lambda>j. if j \<in> set (b2j a (a ! i)) then kval t j else 0)"
      by (rule inner_loop_table[OF inb])
    then show ?thesis unfolding run by simp
  qed
  have mem: "\<And>j. j \<in> set (b2j a (a ! i)) \<Longrightarrow> a ! j = a ! i"
    unfolding js by auto
  have imem: "i \<in> set (b2j a (a ! i))" unfolding js by simp
  have A: "n3 j \<le> clean_run a (Suc i) \<and> n3 j \<le> clean_run a (Suc j)" for j
  proof (cases "j \<in> set (b2j a (a ! i))")
    case inside: True
    then have "n3 j = kval t j" by (simp add: tab)
    with kval_bounds[OF t False mem[OF inside]] show ?thesis by (simp del: clean_run.simps)
  next
    case out: False
    then show ?thesis by (simp add: tab del: clean_run.simps)
  qed
  have B: "n3 i = clean_run a (Suc i)"
    using imem kval_diag[OF t False] by (simp add: tab del: clean_run.simps)
  have "self_table a (Suc i) n3"
    unfolding self_table_def using A B by (simp del: clean_run.simps)
  moreover have "self_best a (Suc i) (ci, ci, cs)"
  proof -
    have "clean_run a m \<le> cs" if "m \<le> Suc i" for m
    proof (cases "m \<le> i")
      case True
      with bs have "clean_run a m \<le> bs" by blast
      with cs(1) show ?thesis by simp
    next
      case gt: False
      with that have "m = Suc i" by simp
      with kval_diag[OF t False] cs(2) show ?thesis by (simp del: clean_run.simps)
    qed
    then show ?thesis by (simp add: self_best_def del: clean_run.simps)
  qed
  ultimately show ?thesis using run by blast
qed

lemma self_outer:
  "i0 \<le> length a \<Longrightarrow> self_table a i0 t \<Longrightarrow> self_best a i0 best \<Longrightarrow>
   self_best a (length a) (outer_loop a a 0 (length a) [i0..<length a] (t, best))"
proof (induction "length a - i0" arbitrary: i0 t best)
  case 0
  then show ?case by simp
next
  case (Suc n)
  then have lt: "i0 < length a" by simp
  from self_row[OF lt Suc.prems(2,3)] obtain t' best' where
    row: "inner_loop t 0 (length a) i0 (b2j a (a ! i0)) (\<lambda>_. 0, best) = (t', best')"
    and inv: "self_table a (Suc i0) t'" "self_best a (Suc i0) best'" by blast
  have "n = length a - Suc i0" using Suc.hyps(2) by simp
  from Suc.hyps(1)[OF this _ inv] lt
  have "self_best a (length a) (outer_loop a a 0 (length a) [Suc i0..<length a] (t', best'))"
    by simp
  then show ?case using lt row by (simp add: upt_conv_Cons)
qed

lemma extend_back_self: "extend_back a a 0 0 (bi, bi, bs) = (0, 0, bs + bi)"
proof (induction bi arbitrary: bs)
  case 0
  show ?case by (subst extend_back.simps) simp
next
  case (Suc bi)
  show ?case by (subst extend_back.simps) (simp add: Suc.IH)
qed

lemma extend_fwd_self: "bs \<le> n \<Longrightarrow> extend_fwd a a n n (0, 0, bs) = (0, 0, n)"
proof (induction "n - bs" arbitrary: bs)
  case 0
  then show ?case by (subst extend_fwd.simps) simp
next
  case (Suc d)
  then have "d = n - (bs + 1)" "bs + 1 \<le> n" "bs < n" by simp_all
  from Suc.hyps(1)[OF this(1,2)] this(3) show ?case
    by (subst extend_fwd.simps) simp
qed

lemma find_longest_match_self:
  "find_longest_match a a 0 (length a) 0 (length a) = (0, 0, length a)"
proof -
  let ?n = "length a"
  obtain bi bj bs where o: "outer_loop a a 0 ?n [0..<?n] (\<lambda>_. 0, 0, 0, 0) = (bi, bj, bs)"
    by (cases "outer_loop a a 0 ?n [0..<?n] (\<lambda>_. 0, 0, 0, 0)") auto
  have "self_best a ?n (outer_loop a a 0 ?n [0..<?n] (\<lambda>_. 0, 0, 0, 0))"
    by (rule self_outer) (simp_all add: self_table_def self_best_def)
  with o have d: "bj = bi" by (simp add: self_best_def)
  have "best_ok 0 ?n 0 ?n (outer_loop a a 0 ?n [0..<?n] (\<lambda>_. 0, 0, 0, 0))"
    by (rule outer_loop_ok) (simp_all add: table_ok_def best_ok_def)
  with o d have le: "bs + bi \<le> ?n" by (auto simp: best_ok_def split: if_splits)
  show ?thesis
    unfolding find_longest_match_def o d extend_back_self by (rule extend_fwd_self[OF le])
qed

lemma ratio_self: "ratio a a = 1"
proof (cases "a = []")
  case True
  then show ?thesis by (simp add: ratio_matches calculate_ratio_def)
next
  case False
  have "matching_loop a a [(0, length a, 0, length a)] [] = [(0, 0, length a)]"
    using False
    by (subst matching_loop.simps(2))
      (simp add: find_longest_match_self matching_loop.simps(1))
  with False show ?thesis by (simp add: ratio_matches calculate_ratio_def sum_k_def)
qed

lemma lower_char_idem: "lower_char (lower_char c) = lower_char c"
  by (auto simp: lower_char_def Let_def)

lemma lower_idem: "lower (lower s) = lower s"
  by (simp add: lower_def lower_char_idem)

lemma similarity_ratio_same: "lower s1 = lower s2 \<Longrightarrow> similarity_ratio s1 s2 = 1"
  by (simp add: similarity_ratio_def ratio_self)

text \<open>
  C9 (as amended). The similarity of two strings lies between 0 and 1; it is 1 for a
  string and itself (the empty string too) and for any two strings that are equal up
  to case; and it does not change when either argument is replaced by its lower-case
  form. Symmetry is not part of it.
\<close>

theorem similarity_ratio_properties:
  "0 \<le> similarity_ratio s1 s2 \<and> similarity_ratio s1 s2 \<le> 1
   \<and> similarity_ratio s1 s1 = 1
   \<and> (lower s1 = lower s2 \<longrightarrow> similarity_ratio s1 s2 = 1)
   \<and> similarity_ratio (lower s1) s2 = similarity_ratio s1 s2
   \<and> similarity_ratio s1 (lower s2) = similarity_ratio s1 s2"
  using ratio_range[of "lower s1" "lower s2"]
  by (simp add: similarity_ratio_def ratio_self lower_idem)

theorem similarity_ratio_properties_witness:
  "lower ''Tide'' = lower ''tIDE'' \<and> similarity_ratio ''Tide'' ''tIDE'' = 1"
proof -
  have h: "lower ''Tide'' = lower ''tIDE''" by code_simp
  with similarity_ratio_properties[of "''Tide''" "''tIDE''"] show ?thesis by blast
qed

text \<open>
  C9 as stated fails: the ratio depends on the order of its arguments. For
  \<open>"tide"\<close> and \<open>"diet"\<close> the longest block found first is \<open>"t"\<close> at the end of
  \<open>"diet"\<close>, which leaves nothing to match on its right, while for \<open>"diet"\<close> and
  \<open>"tide"\<close> it is \<open>"d"\<close>, after which \<open>"e"\<close> still matches.
\<close>

theorem similarity_ratio_not_symmetric:
  "similarity_ratio ''tide'' ''diet'' = 1 / 4 \<and> similarity_ratio ''diet'' ''tide'' = 1 / 2"
  by code_simp

section \<open>A candidate equal to the track\<close>

text \<open>
  C7. With the default thresholds (tolerance 10, title 0.7, artist 0.05), a
  candidate whose duration equals the track's and whose title and artists (from its
  \<open>artist\<close> key and title, or parsed from its title) equal the track's \<open>song_name\<close>
  and \<open>artists\<close> is accepted with its url and the scores \<open>(1, 1)\<close>.
\<close>

theorem exact_match_scores:
  assumes "duration res = duration_ms track"
    and "(case artist res of None \<Rightarrow> process_yt_title (title res)
          | Some names \<Rightarrow> Inr (names, title res)) = Inr (artists track, song_name track)"
  shows "search_single_track res track 10 (7 / 10) (5 / 100)
           = Inr (Some (webpage_url res), 1, 1)"
  using assms by (simp add: search_single_track_def similarity_ratio_same float_sub_same)

theorem exact_match_scores_witness:
  "search_single_track (cand 100 ''A - X'' ''u1'') track_AX 10 (7 / 10) (5 / 100)
     = Inr (Some ''u1'', 1, 1)"
proof -
  have d: "duration (cand 100 ''A - X'' ''u1'') = duration_ms track_AX"
    by (simp add: cand_def track_AX_def)
  have p: "(case artist (cand 100 ''A - X'' ''u1'') of
              None \<Rightarrow> process_yt_title (title (cand 100 ''A - X'' ''u1''))
            | Some names \<Rightarrow> Inr (names, title (cand 100 ''A - X'' ''u1'')))
           = Inr (artists track_AX, song_name track_AX)"
    by code_simp
  have u: "webpage_url (cand 100 ''A - X'' ''u1'') = ''u1''" by (simp add: cand_def)
  from exact_match_scores[OF d p] u show ?thesis by simp
qed

end
